theory Spec2Isabelle
  imports Complex_Main
begin

section \<open>Numeric model\<close>

text \<open>
  The element type of \<open>arma::mat\<close> and the locals of \<open>Transform\<close> are C++ doubles.
  They are modelled as exact reals: rounding is not modelled, and a non-finite value has
  no representation. Wherever the source divides by a variable, the model checks the
  divisor: IEEE arithmetic does not trap, it yields an infinity or a NaN, and the model
  reports \<open>DivisionByZero\<close> for that computation instead. A matrix access outside the
  extent of the matrix is \<open>OutOfBounds\<close> (Armadillo's \<open>operator()\<close> throws there when
  its checks are enabled and reads foreign memory otherwise). The cast \<open>(int)\<close> of a
  double truncates towards zero and is undefined outside the range of a 32-bit int.
\<close>

datatype error = OutOfBounds | DivisionByZero | IntCastOverflow | EmptyObject | SizeMismatch

definition ebind :: "error + 'a \<Rightarrow> ('a \<Rightarrow> error + 'b) \<Rightarrow> error + 'b" where
  "ebind m f = (case m of Inl e \<Rightarrow> Inl e | Inr v \<Rightarrow> f v)"

definition fdiv :: "real \<Rightarrow> real \<Rightarrow> error + real" where
  "fdiv a b = (if b = 0 then Inl DivisionByZero else Inr (a / b))"

definition int_cast :: "real \<Rightarrow> error + int" where
  "int_cast v =
     (let t = (if 0 \<le> v then \<lfloor>v\<rfloor> else \<lceil>v\<rceil>)
      in if - (2 ^ 31) \<le> t \<and> t < 2 ^ 31 then Inr t else Inl IntCastOverflow)"

section \<open>The per-element computation of \<open>BoundaryBoxConstraint::Transform\<close>\<close>

text \<open>
  Lines 91 to 96 of \<open>boundary_box_constraint.hpp\<close>; \<open>lo\<close> and \<open>up\<close> stand for
  \<open>lowerBound(Bi, Bj)\<close> and \<open>upperBound(Bi, Bj)\<close>.
\<close>

definition diff_of :: "real \<Rightarrow> real \<Rightarrow> real" where
  "diff_of lo up = (up - lo) / 2"

definition al_of :: "real \<Rightarrow> real \<Rightarrow> real" where
  "al_of lo up = min (diff_of lo up) ((1 + \<bar>lo\<bar>) / 20)"

definition au_of :: "real \<Rightarrow> real \<Rightarrow> real" where
  "au_of lo up = min (diff_of lo up) ((1 + \<bar>up\<bar>) / 20)"

definition xlow_of :: "real \<Rightarrow> real \<Rightarrow> real" where
  "xlow_of lo up = lo - 2 * al_of lo up - diff_of lo up"

definition xup_of :: "real \<Rightarrow> real \<Rightarrow> real" where
  "xup_of lo up = up + 2 * au_of lo up + diff_of lo up"

definition r_of :: "real \<Rightarrow> real \<Rightarrow> real" where
  "r_of lo up = 2 * (2 * diff_of lo up + al_of lo up + au_of lo up)"

text \<open>
  Lines 99 to 102: \<open>if (y < xlow) y += r * (1 + (int)(xlow - y) / r)\<close>. The cast binds
  tighter than the division, so it is the difference that is truncated, and the truncated
  difference is then divided by \<open>r\<close>.
\<close>

definition shift_up :: "real \<Rightarrow> real \<Rightarrow> real \<Rightarrow> error + real" where
  "shift_up xlow r y =
     (if y < xlow
      then ebind (int_cast (xlow - y)) (\<lambda>n.
           ebind (fdiv (of_int n) r) (\<lambda>q.
           Inr (y + r * (1 + q))))
      else Inr y)"

text \<open>Lines 103 to 106: \<open>if (y > xup) y -= r * (1 + (int)(y - xup) / r)\<close>.\<close>

definition shift_down :: "real \<Rightarrow> real \<Rightarrow> real \<Rightarrow> error + real" where
  "shift_down xup r y =
     (if y > xup
      then ebind (int_cast (y - xup)) (\<lambda>n.
           ebind (fdiv (of_int n) r) (\<lambda>q.
           Inr (y - r * (1 + q))))
      else Inr y)"

text \<open>The periodic shift: both conditional statements, one after the other.\<close>

definition shift_preimage :: "real \<Rightarrow> real \<Rightarrow> real \<Rightarrow> error + real" where
  "shift_preimage lo up y =
     ebind (shift_up (xlow_of lo up) (r_of lo up) y) (shift_down (xup_of lo up) (r_of lo up))"

text \<open>Lines 107 to 114: the two reflections.\<close>

definition reflect_lower :: "real \<Rightarrow> real \<Rightarrow> real \<Rightarrow> real" where
  "reflect_lower lo al y = (if y < lo - al then y + 2 * (lo - al - y) else y)"

definition reflect_upper :: "real \<Rightarrow> real \<Rightarrow> real \<Rightarrow> real" where
  "reflect_upper up au y = (if y > up + au then y - 2 * (y - up - au) else y)"

definition reflect :: "real \<Rightarrow> real \<Rightarrow> real \<Rightarrow> real" where
  "reflect lo up y = reflect_upper up (au_of lo up) (reflect_lower lo (al_of lo up) y)"

text \<open>Lines 117 to 128: the boundary transformation with its two quadratic branches.\<close>

definition smooth_lower :: "real \<Rightarrow> real \<Rightarrow> real \<Rightarrow> error + real" where
  "smooth_lower lo al y =
     ebind (fdiv ((y - (lo - al)) * (y - (lo - al)) / 4) al) (\<lambda>q. Inr (lo + q))"

definition smooth_upper :: "real \<Rightarrow> real \<Rightarrow> real \<Rightarrow> error + real" where
  "smooth_upper up au y =
     ebind (fdiv ((y - (up + au)) * (y - (up + au)) / 4) au) (\<lambda>q. Inr (up - q))"

definition boundary_transformation :: "real \<Rightarrow> real \<Rightarrow> real \<Rightarrow> error + real" where
  "boundary_transformation lo up y =
     (if y < lo + al_of lo up then smooth_lower lo (al_of lo up) y
      else if y > up - au_of lo up then smooth_upper up (au_of lo up) y
      else Inr y)"

text \<open>The body of the inner loop for one element, lines 91 to 128.\<close>

definition transform_elem :: "real \<Rightarrow> real \<Rightarrow> real \<Rightarrow> error + real" where
  "transform_elem lo up y =
     ebind (shift_preimage lo up y) (\<lambda>y'. boundary_transformation lo up (reflect lo up y'))"

text \<open>
  The value of a computation that succeeded, for statements about the element map as a
  real function; it is only used where the computation succeeds.
\<close>

definition value_of :: "error + real \<Rightarrow> real" where
  "value_of res = (case res of Inr z \<Rightarrow> z | Inl e \<Rightarrow> 0)"

section \<open>Matrices\<close>

text \<open>
  An Armadillo matrix: its extent and its elements in column-major order. Element
  \<open>(i, j)\<close> is stored at \<open>i + j * n_rows\<close>.
\<close>

record mat =
  n_rows :: nat
  n_cols :: nat
  mem :: "real list"

definition wf_mat :: "mat \<Rightarrow> bool" where
  "wf_mat m \<longleftrightarrow> length (mem m) = n_rows m * n_cols m"

definition mat_at :: "mat \<Rightarrow> nat \<Rightarrow> nat \<Rightarrow> error + real" where
  "mat_at m i j =
     (if i < n_rows m \<and> j < n_cols m then Inr (mem m ! (i + j * n_rows m))
      else Inl OutOfBounds)"

definition mat_put :: "mat \<Rightarrow> nat \<Rightarrow> nat \<Rightarrow> real \<Rightarrow> error + mat" where
  "mat_put m i j v =
     (if i < n_rows m \<and> j < n_cols m then Inr (m\<lparr>mem := (mem m)[i + j * n_rows m := v]\<rparr>)
      else Inl OutOfBounds)"

section \<open>The boundary box constraint\<close>

text \<open>
  The class holds the two bound matrices. The default constructor leaves both empty, the
  matrix constructor copies its arguments, and the scalar constructor stores each bound
  as a matrix with the single element given.
\<close>

record BoundaryBoxConstraint =
  upperBound :: mat
  lowerBound :: mat

definition empty_mat :: mat where
  "empty_mat = \<lparr>n_rows = 0, n_cols = 0, mem = []\<rparr>"

definition scalar_mat :: "real \<Rightarrow> mat" where
  "scalar_mat v = \<lparr>n_rows = 1, n_cols = 1, mem = [v]\<rparr>"

text \<open>A matrix with a single row, as Armadillo builds from an initializer list.\<close>

definition row_mat :: "real list \<Rightarrow> mat" where
  "row_mat vs = \<lparr>n_rows = 1, n_cols = length vs, mem = vs\<rparr>"

definition BoundaryBoxConstraint_default :: BoundaryBoxConstraint where
  "BoundaryBoxConstraint_default = \<lparr>upperBound = empty_mat, lowerBound = empty_mat\<rparr>"

definition BoundaryBoxConstraint_mat :: "mat \<Rightarrow> mat \<Rightarrow> BoundaryBoxConstraint" where
  "BoundaryBoxConstraint_mat lb ub = \<lparr>upperBound = ub, lowerBound = lb\<rparr>"

definition BoundaryBoxConstraint_scalar :: "real \<Rightarrow> real \<Rightarrow> BoundaryBoxConstraint" where
  "BoundaryBoxConstraint_scalar lo up =
     \<lparr>upperBound = scalar_mat up, lowerBound = scalar_mat lo\<rparr>"

text \<open>
  Lines 86 and 89: \<open>(i < lowerBound.n_rows) ? i : (lowerBound.n_rows - 1)\<close>, computed
  on unsigned 64-bit sizes, so that the subtraction wraps around when the extent is 0.
\<close>

definition clamp_index :: "nat \<Rightarrow> nat \<Rightarrow> nat" where
  "clamp_index i n = (if i < n then i else (n + 2 ^ 64 - 1) mod 2 ^ 64)"

text \<open>
  One iteration of the inner loop: the bounds are read at \<open>(Bi, Bj)\<close>, the element
  \<open>y(i, j)\<close> is read, transformed and written back.
\<close>

definition Transform_step :: "BoundaryBoxConstraint \<Rightarrow> nat \<Rightarrow> nat \<Rightarrow> nat \<Rightarrow> mat \<Rightarrow> error + mat" where
  "Transform_step P Bi i j y =
     (let Bj = clamp_index j (n_cols (lowerBound P))
      in ebind (mat_at (upperBound P) Bi Bj) (\<lambda>up.
         ebind (mat_at (lowerBound P) Bi Bj) (\<lambda>lo.
         ebind (mat_at y i j) (\<lambda>v.
         ebind (transform_elem lo up v) (\<lambda>w.
         mat_put y i j w)))))"

text \<open>
  The inner loop \<open>for (j = 0; j < x.n_cols; j++)\<close>, entered at column \<open>j\<close>. In
  the model the first failing element ends the call with its error. The C++ loop goes on
  after a division by zero, with a non-finite value stored in that element; the other
  elements do not depend on it, and \<open>cell_result\<close> below gives the outcome of each
  element on its own.
\<close>

function loop_cols ::
  "BoundaryBoxConstraint \<Rightarrow> nat \<Rightarrow> nat \<Rightarrow> nat \<Rightarrow> nat \<Rightarrow> mat \<Rightarrow> error + mat" where
  "loop_cols P nc Bi i j y =
     (if j < nc
      then (case Transform_step P Bi i j y of
              Inl e \<Rightarrow> Inl e
            | Inr y' \<Rightarrow> loop_cols P nc Bi i (Suc j) y')
      else Inr y)"
  by pat_completeness auto
termination
  by (relation "measure (\<lambda>(P, nc, Bi, i, j, y). nc - j)") auto

declare loop_cols.simps [simp del]

text \<open>The outer loop \<open>for (i = 0; i < x.n_rows; i++)\<close>, entered at row \<open>i\<close>.\<close>

function loop_rows ::
  "BoundaryBoxConstraint \<Rightarrow> nat \<Rightarrow> nat \<Rightarrow> nat \<Rightarrow> mat \<Rightarrow> error + mat" where
  "loop_rows P nr nc i y =
     (if i < nr
      then (case loop_cols P nc (clamp_index i (n_rows (lowerBound P))) i 0 y of
              Inl e \<Rightarrow> Inl e
            | Inr y' \<Rightarrow> loop_rows P nr nc (Suc i) y')
      else Inr y)"
  by pat_completeness auto
termination
  by (relation "measure (\<lambda>(P, nr, nc, i, y). nr - i)") auto

declare loop_rows.simps [simp del]

definition Transform :: "BoundaryBoxConstraint \<Rightarrow> mat \<Rightarrow> error + mat" where
  "Transform P x = loop_rows P (n_rows x) (n_cols x) 0 x"

text \<open>
  What the loop body computes for the element at \<open>(i, j)\<close> of a matrix \<open>x\<close>: the
  bounds at the clamped indices and the transformed element.
\<close>

definition cell_result :: "BoundaryBoxConstraint \<Rightarrow> mat \<Rightarrow> nat \<Rightarrow> nat \<Rightarrow> error + real" where
  "cell_result P x i j =
     (let Bi = clamp_index i (n_rows (lowerBound P));
          Bj = clamp_index j (n_cols (lowerBound P))
      in ebind (mat_at (upperBound P) Bi Bj) (\<lambda>up.
         ebind (mat_at (lowerBound P) Bi Bj) (\<lambda>lo.
         ebind (mat_at x i j) (\<lambda>v.
         transform_elem lo up v))))"

text \<open>
  The specification of the two loops: on success the extent is kept and exactly the
  elements visited hold their \<open>cell_result\<close>; on failure some visited element
  produced that error.
\<close>

definition cols_post :: "BoundaryBoxConstraint \<Rightarrow> nat \<Rightarrow> nat \<Rightarrow> mat \<Rightarrow> error + mat \<Rightarrow> bool" where
  "cols_post P i j y res =
     (case res of
        Inr y' \<Rightarrow> n_rows y' = n_rows y \<and> n_cols y' = n_cols y \<and> wf_mat y' \<and>
          (\<forall>i' j'. i' < n_rows y \<longrightarrow> j' < n_cols y \<longrightarrow>
             mat_at y' i' j' = (if i' = i \<and> j \<le> j' then cell_result P y i' j' else mat_at y i' j'))
      | Inl e \<Rightarrow> \<exists>j'. j \<le> j' \<and> j' < n_cols y \<and> cell_result P y i j' = Inl e)"

definition rows_post :: "BoundaryBoxConstraint \<Rightarrow> nat \<Rightarrow> mat \<Rightarrow> error + mat \<Rightarrow> bool" where
  "rows_post P i y res =
     (case res of
        Inr y' \<Rightarrow> n_rows y' = n_rows y \<and> n_cols y' = n_cols y \<and> wf_mat y' \<and>
          (\<forall>i' j'. i' < n_rows y \<longrightarrow> j' < n_cols y \<longrightarrow>
             mat_at y' i' j' = (if i \<le> i' then cell_result P y i' j' else mat_at y i' j'))
      | Inl e \<Rightarrow> \<exists>i' j'. i \<le> i' \<and> i' < n_rows y \<and> j' < n_cols y \<and> cell_result P y i' j' = Inl e)"

text \<open>
  The element at \<open>(i, j)\<close> lies in the inner band of its dimension: the bounds read
  for it satisfy \<open>lower < upper\<close> and the element is in
  \<open>[lower + al, upper - au]\<close>.
\<close>

definition in_band :: "BoundaryBoxConstraint \<Rightarrow> mat \<Rightarrow> nat \<Rightarrow> nat \<Rightarrow> bool" where
  "in_band P x i j =
     (let Bi = clamp_index i (n_rows (lowerBound P));
          Bj = clamp_index j (n_cols (lowerBound P))
      in case (mat_at (lowerBound P) Bi Bj, mat_at (upperBound P) Bi Bj, mat_at x i j) of
           (Inr lo, Inr up, Inr v) \<Rightarrow> lo < up \<and> lo + al_of lo up \<le> v \<and> v \<le> up - au_of lo up
         | _ \<Rightarrow> False)"

subsection \<open>The initial step size\<close>

text \<open>
  Modelled from the spec: \<open>InitialStepSize() = 0.3 * min(upper - lower)\<close> over all
  dimensions. The matrix subtraction and \<open>arma::min\<close> belong to Armadillo, which is not
  part of the source tree. The subtraction is elementwise and rejects operands of different
  extent. \<open>arma::min\<close> of a matrix gives the row vector of the minima of its columns
  (an empty object for a matrix without rows), \<open>arma::min\<close> of a vector gives its
  least element and rejects a vector without elements.
\<close>

definition arma_minus :: "mat \<Rightarrow> mat \<Rightarrow> error + mat" where
  "arma_minus a b =
     (if n_rows a = n_rows b \<and> n_cols a = n_cols b
      then Inr \<lparr>n_rows = n_rows a, n_cols = n_cols a, mem = map2 (-) (mem a) (mem b)\<rparr>
      else Inl SizeMismatch)"

definition mat_col :: "mat \<Rightarrow> nat \<Rightarrow> real list" where
  "mat_col m j = take (n_rows m) (drop (j * n_rows m) (mem m))"

definition arma_min_cols :: "mat \<Rightarrow> mat" where
  "arma_min_cols m =
     (if n_rows m = 0 then \<lparr>n_rows = 0, n_cols = n_cols m, mem = []\<rparr>
      else \<lparr>n_rows = 1, n_cols = n_cols m,
             mem = map (\<lambda>j. Min (set (mat_col m j))) [0..<n_cols m]\<rparr>)"

definition arma_min_vec :: "mat \<Rightarrow> error + real" where
  "arma_min_vec v = (if mem v = [] then Inl EmptyObject else Inr (Min (set (mem v))))"

text \<open>Line 141: \<open>0.3 * arma::min(arma::min(upperBound - lowerBound))\<close>.\<close>

definition initialStepSize :: "BoundaryBoxConstraint \<Rightarrow> error + real" where
  "initialStepSize P =
     ebind (arma_minus (upperBound P) (lowerBound P)) (\<lambda>d.
     ebind (arma_min_vec (arma_min_cols d)) (\<lambda>m.
     Inr (0.3 * m)))"

section \<open>The empty transformation\<close>

text \<open>\<open>EmptyTransformation\<close> has no members; \<open>Transform\<close> returns its argument.\<close>

definition EmptyTransformation_Transform :: "mat \<Rightarrow> mat" where
  "EmptyTransformation_Transform x = x"

definition EmptyTransformation_initialStepSize :: real where
  "EmptyTransformation_initialStepSize = 1"

section \<open>The element map\<close>

lemmas bbc_params = diff_of_def al_of_def au_of_def xlow_of_def xup_of_def r_of_def

lemma al_nonneg: "lo \<le> up \<Longrightarrow> 0 \<le> al_of lo up"
  by (simp add: al_of_def diff_of_def)

lemma au_nonneg: "lo \<le> up \<Longrightarrow> 0 \<le> au_of lo up"
  by (simp add: au_of_def diff_of_def)

lemma al_pos: "lo < up \<Longrightarrow> 0 < al_of lo up"
  by (simp add: al_of_def diff_of_def)

lemma au_pos: "lo < up \<Longrightarrow> 0 < au_of lo up"
  by (simp add: au_of_def diff_of_def)

lemma al_le_diff: "al_of lo up \<le> diff_of lo up"
  by (simp add: al_of_def)

lemma au_le_diff: "au_of lo up \<le> diff_of lo up"
  by (simp add: au_of_def)

lemma al_zero_iff: "al_of lo up = 0 \<longleftrightarrow> lo = up"
  by (auto simp: al_of_def diff_of_def min_def split: if_splits)

lemma au_zero_iff: "au_of lo up = 0 \<longleftrightarrow> lo = up"
  by (auto simp: au_of_def diff_of_def min_def split: if_splits)

lemma period_eq: "xup_of lo up - xlow_of lo up = r_of lo up"
  by (simp add: xup_of_def xlow_of_def r_of_def diff_of_def) 

lemma transform_elem_band:
  assumes "lo \<le> up" "lo + al_of lo up \<le> y" "y \<le> up - au_of lo up"
  shows "transform_elem lo up y = Inr y"
proof -
  have a: "0 \<le> al_of lo up" "0 \<le> au_of lo up" "0 \<le> diff_of lo up"
    using assms(1) al_nonneg au_nonneg by (simp_all add: diff_of_def)
  have "xlow_of lo up \<le> y" "y \<le> xup_of lo up"
    using a assms(2,3) by (simp_all add: xlow_of_def xup_of_def)
  then have s: "shift_preimage lo up y = Inr y"
    by (simp add: shift_preimage_def shift_up_def shift_down_def ebind_def)
  have r: "reflect lo up y = y"
    using a assms(2,3) by (simp add: reflect_def reflect_lower_def reflect_upper_def)
  have b: "boundary_transformation lo up y = Inr y"
    using assms(2,3) by (simp add: boundary_transformation_def)
  show ?thesis by (simp add: transform_elem_def s r b ebind_def)
qed

lemma transform_elem_degenerate:
  "transform_elem lo lo x =
     (if x = lo then Inr x else ebind (int_cast \<bar>x - lo\<bar>) (\<lambda>n. Inl DivisionByZero))"
proof -
  have p: "al_of lo lo = 0" "au_of lo lo = 0" "xlow_of lo lo = lo" "xup_of lo lo = lo" "r_of lo lo = 0"
    by (simp_all add: bbc_params)
  show ?thesis
    by (auto simp: transform_elem_def shift_preimage_def shift_up_def shift_down_def p ebind_def
        fdiv_def reflect_def reflect_lower_def reflect_upper_def boundary_transformation_def
        abs_if split: sum.splits)
qed

lemma smooth_edges:
  assumes "lo \<noteq> up"
  shows "smooth_lower lo (al_of lo up) (lo + al_of lo up) = Inr (lo + al_of lo up)"
    and "smooth_upper up (au_of lo up) (up - au_of lo up) = Inr (up - au_of lo up)"
  using assms al_zero_iff[of lo up] au_zero_iff[of lo up]
  by (simp_all add: smooth_lower_def smooth_upper_def fdiv_def ebind_def)


lemma int_cast_nonneg:
  "0 \<le> v \<Longrightarrow> int_cast v = Inr n \<Longrightarrow> n = \<lfloor>v\<rfloor>"
  by (auto simp: int_cast_def Let_def split: if_splits)

lemma shift_up_value:
  assumes "r \<noteq> 0" "shift_up xlow r y = Inr y1" "y < xlow"
  shows "y1 = y + r + of_int \<lfloor>xlow - y\<rfloor>"
proof -
  from assms(2,3) obtain n where n: "int_cast (xlow - y) = Inr n"
    and y1: "y1 = y + r * (1 + of_int n / r)"
    using assms(1) by (auto simp: shift_up_def ebind_def fdiv_def split: sum.splits if_splits)
  from n assms(3) have "n = \<lfloor>xlow - y\<rfloor>" by (intro int_cast_nonneg) simp_all
  moreover have "r * (1 + of_int n / r) = r + of_int n"
    using assms(1) by (simp add: field_simps)
  ultimately show ?thesis using y1 by simp
qed

lemma shift_down_value:
  assumes "r \<noteq> 0" "shift_down xup r y = Inr y1" "y > xup"
  shows "y1 = y - r - of_int \<lfloor>y - xup\<rfloor>"
proof -
  from assms(2,3) obtain n where n: "int_cast (y - xup) = Inr n"
    and y1: "y1 = y - r * (1 + of_int n / r)"
    using assms(1) by (auto simp: shift_down_def ebind_def fdiv_def split: sum.splits if_splits)
  from n assms(3) have "n = \<lfloor>y - xup\<rfloor>" by (intro int_cast_nonneg) simp_all
  moreover have "r * (1 + of_int n / r) = r + of_int n"
    using assms(1) by (simp add: field_simps)
  ultimately show ?thesis using y1 by simp
qed

lemma shift_preimage_range:
  assumes "1 \<le> r_of lo up" "shift_preimage lo up y = Inr y1"
  shows "xlow_of lo up \<le> y1 \<and> y1 \<le> xup_of lo up"
proof -
  let ?r = "r_of lo up" and ?xl = "xlow_of lo up" and ?xu = "xup_of lo up"
  have r0: "?r \<noteq> 0" using assms(1) by simp
  have per: "?xu = ?xl + ?r" using period_eq[of lo up] by simp
  from assms(2) obtain y0 where up: "shift_up ?xl ?r y = Inr y0"
    and down: "shift_down ?xu ?r y0 = Inr y1"
    by (auto simp: shift_preimage_def ebind_def split: sum.splits)
  show ?thesis
  proof (cases "y < ?xl")
    case True
    have y0: "y0 = y + ?r + of_int \<lfloor>?xl - y\<rfloor>"
      by (rule shift_up_value[OF r0 up True])
    have "of_int \<lfloor>?xl - y\<rfloor> \<le> ?xl - y" "?xl - y < of_int \<lfloor>?xl - y\<rfloor> + 1"
      by linarith+
    then have b: "?xu - 1 < y0" "y0 \<le> ?xu" using y0 per by linarith+
    then have "y1 = y0" using down by (simp add: shift_down_def)
    then show ?thesis using b per assms(1) by simp
  next
    case False
    then have y0: "y0 = y" using up by (simp add: shift_up_def)
    show ?thesis
    proof (cases "y > ?xu")
      case True
      have y1: "y1 = y - ?r - of_int \<lfloor>y - ?xu\<rfloor>"
        using shift_down_value[OF r0 _ True, of y1] down y0 by simp
      have "of_int \<lfloor>y - ?xu\<rfloor> \<le> y - ?xu" "y - ?xu < of_int \<lfloor>y - ?xu\<rfloor> + 1"
        by linarith+
      then show ?thesis using y1 per assms(1) by linarith
    next
      case f: False
      then have "y1 = y" using down y0 by (simp add: shift_down_def)
      then show ?thesis using False f by simp
    qed
  qed
qed

lemma reflect_range:
  assumes "lo \<le> up" "xlow_of lo up \<le> y" "y \<le> xup_of lo up"
  shows "lo - al_of lo up \<le> reflect lo up y \<and> reflect lo up y \<le> up + au_of lo up"
proof -
  have a: "0 \<le> al_of lo up" "0 \<le> au_of lo up" "diff_of lo up = (up - lo) / 2"
    using assms(1) al_nonneg au_nonneg by (simp_all add: diff_of_def)
  show ?thesis
    using a assms
    by (auto simp: reflect_def reflect_lower_def reflect_upper_def xlow_of_def xup_of_def)
qed

lemma quad_bound:
  fixes t a :: real
  assumes "0 < a" "\<bar>t\<bar> \<le> 2 * a"
  shows "0 \<le> t * t / 4 / a \<and> t * t / 4 / a \<le> a"
proof -
  have "t * t = \<bar>t\<bar> * \<bar>t\<bar>" by simp
  also have "\<dots> \<le> (2 * a) * (2 * a)" using assms by (intro mult_mono) simp_all
  finally have "t * t \<le> 4 * (a * a)" by simp
  then have "t * t / 4 / a \<le> a" using assms(1) by (simp add: field_simps)
  moreover have "0 \<le> t * t / 4 / a" using assms(1) by simp
  ultimately show ?thesis by simp
qed

lemma boundary_transformation_range:
  assumes "lo < up" "lo - al_of lo up \<le> y" "y \<le> up + au_of lo up"
    "boundary_transformation lo up y = Inr z"
  shows "lo \<le> z \<and> z \<le> up"
proof -
  let ?al = "al_of lo up" and ?au = "au_of lo up"
  have a: "0 < ?al" "0 < ?au" using assms(1) al_pos au_pos by simp_all
  have d: "?al \<le> (up - lo) / 2" "?au \<le> (up - lo) / 2"
    using al_le_diff[of lo up] au_le_diff[of lo up] by (simp_all add: diff_of_def)
  show ?thesis
  proof (cases "y < lo + ?al")
    case True
    let ?t = "y - (lo - ?al)"
    have z: "z = lo + ?t * ?t / 4 / ?al"
      using assms(4) True a by (simp add: boundary_transformation_def smooth_lower_def fdiv_def ebind_def)
    have "\<bar>?t\<bar> \<le> 2 * ?al" using True assms(2) by simp
    from quad_bound[OF a(1) this] show ?thesis using z d assms(1) by simp
  next
    case False
    show ?thesis
    proof (cases "y > up - ?au")
      case True
      let ?t = "y - (up + ?au)"
      have z: "z = up - ?t * ?t / 4 / ?au"
        using assms(4) True False a
        by (simp add: boundary_transformation_def smooth_upper_def fdiv_def ebind_def)
      have "\<bar>?t\<bar> \<le> 2 * ?au" using True assms(3) by simp
      from quad_bound[OF a(2) this] show ?thesis using z d assms(1) by simp
    next
      case f: False
      then have "z = y" using assms(4) False by (simp add: boundary_transformation_def)
      then show ?thesis using False f a by simp
    qed
  qed
qed

lemma r_ge_1_nondegenerate:
  assumes "1 \<le> r_of lo up"
  shows "lo < up"
proof -
  have "r_of lo up \<le> 8 * diff_of lo up"
    using al_le_diff[of lo up] au_le_diff[of lo up] by (simp add: r_of_def)
  then show ?thesis using assms by (simp add: diff_of_def)
qed

lemma transform_elem_in_bounds:
  assumes "1 \<le> r_of lo up" "transform_elem lo up y = Inr z"
  shows "lo \<le> z \<and> z \<le> up"
proof -
  have lt: "lo < up" using assms(1) by (rule r_ge_1_nondegenerate)
  from assms(2) obtain y1 where s: "shift_preimage lo up y = Inr y1"
    and b: "boundary_transformation lo up (reflect lo up y1) = Inr z"
    by (auto simp: transform_elem_def ebind_def split: sum.splits)
  from shift_preimage_range[OF assms(1) s] lt
  have "lo - al_of lo up \<le> reflect lo up y1 \<and> reflect lo up y1 \<le> up + au_of lo up"
    by (intro reflect_range) simp_all
  with boundary_transformation_range[OF lt _ _ b] show ?thesis by simp
qed


lemma r_pos:
  assumes "lo < up"
  shows "0 < r_of lo up"
proof -
  have "0 < diff_of lo up" using assms by (simp add: diff_of_def)
  then show ?thesis
    unfolding r_of_def using al_pos[OF assms] au_pos[OF assms]
    by (intro mult_pos_pos add_pos_pos) simp_all
qed

lemma int_cast_in_range:
  assumes "0 \<le> v" "v < 2 ^ 31"
  shows "int_cast v = Inr \<lfloor>v\<rfloor>"
proof -
  have "\<lfloor>v\<rfloor> < 2 ^ 31" using assms(2) by (simp add: floor_less_iff)
  moreover have "0 \<le> \<lfloor>v\<rfloor>" using assms(1) by simp
  ultimately show ?thesis using assms(1) by (simp add: int_cast_def)
qed

lemma boundary_transformation_total:
  "lo \<noteq> up \<Longrightarrow> \<exists>z. boundary_transformation lo up y = Inr z"
  using al_zero_iff[of lo up] au_zero_iff[of lo up]
  by (simp add: boundary_transformation_def smooth_lower_def smooth_upper_def fdiv_def ebind_def)

lemma shift_preimage_total:
  assumes "lo < up" "xlow_of lo up - y < 2 ^ 31" "y - xup_of lo up < 2 ^ 31"
  shows "\<exists>y1. shift_preimage lo up y = Inr y1"
proof -
  let ?r = "r_of lo up" and ?xl = "xlow_of lo up" and ?xu = "xup_of lo up"
  have r0: "?r \<noteq> 0" using r_pos[OF assms(1)] by simp
  have per: "?xu = ?xl + ?r" using period_eq[of lo up] by simp
  show ?thesis
  proof (cases "y < ?xl")
    case True
    then have c: "int_cast (?xl - y) = Inr \<lfloor>?xl - y\<rfloor>"
      using assms(2) by (intro int_cast_in_range) simp_all
    define y0 where "y0 = y + ?r * (1 + of_int \<lfloor>?xl - y\<rfloor> / ?r)"
    have up: "shift_up ?xl ?r y = Inr y0"
      using True c r0 by (simp add: shift_up_def ebind_def fdiv_def y0_def)
    have "y0 = y + ?r + of_int \<lfloor>?xl - y\<rfloor>"
      by (rule shift_up_value[OF r0 up True])
    moreover have "of_int \<lfloor>?xl - y\<rfloor> \<le> ?xl - y" by linarith
    ultimately have "y0 \<le> ?xu" using per by linarith
    then have "shift_down ?xu ?r y0 = Inr y0" by (simp add: shift_down_def)
    then show ?thesis using up by (simp add: shift_preimage_def ebind_def)
  next
    case False
    then have up: "shift_up ?xl ?r y = Inr y" by (simp add: shift_up_def)
    show ?thesis
    proof (cases "y > ?xu")
      case True
      then have c: "int_cast (y - ?xu) = Inr \<lfloor>y - ?xu\<rfloor>"
        using assms(3) by (intro int_cast_in_range) simp_all
      then have "\<exists>y1. shift_down ?xu ?r y = Inr y1"
        using True r0 by (simp add: shift_down_def ebind_def fdiv_def)
      then show ?thesis using up by (simp add: shift_preimage_def ebind_def)
    next
      case f: False
      then show ?thesis using up by (simp add: shift_preimage_def ebind_def shift_down_def)
    qed
  qed
qed

lemma transform_elem_total:
  assumes "lo < up" "xlow_of lo up - y < 2 ^ 31" "y - xup_of lo up < 2 ^ 31"
  shows "\<exists>z. transform_elem lo up y = Inr z"
proof -
  from shift_preimage_total[OF assms] obtain y1 where "shift_preimage lo up y = Inr y1" ..
  moreover from assms(1) obtain z where "boundary_transformation lo up (reflect lo up y1) = Inr z"
    using boundary_transformation_total[of lo up] by blast
  ultimately show ?thesis by (simp add: transform_elem_def ebind_def)
qed

lemma shift_up_not_oob: "shift_up xlow r y \<noteq> Inl OutOfBounds"
  by (simp add: shift_up_def fdiv_def int_cast_def ebind_def Let_def)

lemma shift_down_not_oob: "shift_down xup r y \<noteq> Inl OutOfBounds"
  by (simp add: shift_down_def fdiv_def int_cast_def ebind_def Let_def)

lemma boundary_transformation_not_oob: "boundary_transformation lo up y \<noteq> Inl OutOfBounds"
  by (simp add: boundary_transformation_def smooth_lower_def smooth_upper_def fdiv_def ebind_def)

lemma transform_elem_not_oob: "transform_elem lo up y \<noteq> Inl OutOfBounds"
proof -
  have "shift_preimage lo up y \<noteq> Inl OutOfBounds"
    using shift_up_not_oob[of "xlow_of lo up" "r_of lo up" y] shift_down_not_oob[of "xup_of lo up" "r_of lo up"]
    by (auto simp: shift_preimage_def ebind_def split: sum.splits)
  then show ?thesis
    using boundary_transformation_not_oob[of lo up]
    by (auto simp: transform_elem_def ebind_def split: sum.splits)
qed

subsection \<open>Continuity of the boundary transformation\<close>

lemma band_edges_ordered: "lo + al_of lo up \<le> up - au_of lo up"
  using al_le_diff[of lo up] au_le_diff[of lo up] by (simp add: diff_of_def)

lemma boundary_transformation_closed_form:
  assumes "lo \<noteq> up"
  shows "value_of (boundary_transformation lo up y) =
     (lo + (min y (lo + al_of lo up) - (lo - al_of lo up)) * (min y (lo + al_of lo up) - (lo - al_of lo up)) / 4 / al_of lo up)
     - (lo + al_of lo up)
     + max (lo + al_of lo up) (min y (up - au_of lo up))
     + (up - (max y (up - au_of lo up) - (up + au_of lo up)) * (max y (up - au_of lo up) - (up + au_of lo up)) / 4 / au_of lo up)
     - (up - au_of lo up)"
proof -
  let ?al = "al_of lo up" and ?au = "au_of lo up"
  have nz: "?al \<noteq> 0" "?au \<noteq> 0" using assms al_zero_iff[of lo up] au_zero_iff[of lo up] by simp_all
  note ord = band_edges_ordered[of lo up]
  have ga: "lo + (?al + ?al) * (?al + ?al) / 4 / ?al = lo + ?al"
    using nz by (simp add: field_simps)
  have hb: "up - (- ?au - ?au) * (- ?au - ?au) / 4 / ?au = up - ?au"
    using nz by (simp add: field_simps)
  consider "y < lo + ?al" | "lo + ?al \<le> y" "y \<le> up - ?au" | "lo + ?al \<le> y" "up - ?au < y"
    by linarith
  then show ?thesis
  proof cases
    case 1
    then have m: "min y (lo + ?al) = y" "min y (up - ?au) = y" "max (lo + ?al) y = lo + ?al"
      "max y (up - ?au) = up - ?au"
      using ord by simp_all
    have "value_of (boundary_transformation lo up y) = lo + (y - (lo - ?al)) * (y - (lo - ?al)) / 4 / ?al"
      using 1 nz by (simp add: boundary_transformation_def smooth_lower_def fdiv_def ebind_def value_of_def)
    then show ?thesis using hb by (simp add: m)
  next
    case 2
    then have m: "min y (lo + ?al) = lo + ?al" "min y (up - ?au) = y" "max (lo + ?al) y = y"
      "max y (up - ?au) = up - ?au"
      by simp_all
    have "value_of (boundary_transformation lo up y) = y"
      using 2 by (simp add: boundary_transformation_def value_of_def)
    then show ?thesis using ga hb by (simp add: m)
  next
    case 3
    then have m: "min y (lo + ?al) = lo + ?al" "min y (up - ?au) = up - ?au"
      "max (lo + ?al) (up - ?au) = up - ?au" "max y (up - ?au) = y"
      using ord by simp_all
    have "value_of (boundary_transformation lo up y) = up - (y - (up + ?au)) * (y - (up + ?au)) / 4 / ?au"
      using 3 nz by (simp add: boundary_transformation_def smooth_upper_def fdiv_def ebind_def value_of_def)
    then show ?thesis using ga by (simp add: m)
  qed
qed

lemma boundary_transformation_continuous:
  assumes "lo \<noteq> up"
  shows "isCont (\<lambda>y. value_of (boundary_transformation lo up y)) c"
proof -
  have nz: "al_of lo up \<noteq> 0" "au_of lo up \<noteq> 0"
    using assms al_zero_iff[of lo up] au_zero_iff[of lo up] by simp_all
  have "isCont (\<lambda>y.
     (lo + (min y (lo + al_of lo up) - (lo - al_of lo up)) * (min y (lo + al_of lo up) - (lo - al_of lo up)) / 4 / al_of lo up)
     - (lo + al_of lo up)
     + max (lo + al_of lo up) (min y (up - au_of lo up))
     + (up - (max y (up - au_of lo up) - (up + au_of lo up)) * (max y (up - au_of lo up) - (up + au_of lo up)) / 4 / au_of lo up)
     - (up - au_of lo up)) c"
    using nz by (intro continuous_intros) simp_all
  then show ?thesis
    by (simp only: boundary_transformation_closed_form[OF assms])
qed

lemma transform_elem_near_box:
  assumes "lo < up" "lo - al_of lo up < y" "y < up + au_of lo up"
  shows "transform_elem lo up y = boundary_transformation lo up y"
proof -
  have a: "0 < al_of lo up" "0 < au_of lo up" "0 < diff_of lo up"
    using assms(1) al_pos au_pos by (simp_all add: diff_of_def)
  have "xlow_of lo up \<le> y" "y \<le> xup_of lo up"
    using a assms(2,3) by (simp_all add: xlow_of_def xup_of_def)
  then have s: "shift_preimage lo up y = Inr y"
    by (simp add: shift_preimage_def shift_up_def shift_down_def ebind_def)
  have r: "reflect lo up y = y"
    using assms(2,3) by (simp add: reflect_def reflect_lower_def reflect_upper_def)
  show ?thesis by (simp add: transform_elem_def s r ebind_def)
qed

lemma transform_elem_continuous_near_box:
  assumes "lo < up" "lo - al_of lo up < c" "c < up + au_of lo up"
  shows "isCont (\<lambda>y. value_of (transform_elem lo up y)) c"
proof -
  let ?S = "{lo - al_of lo up <..< up + au_of lo up}"
  have "eventually (\<lambda>y. value_of (transform_elem lo up y) = value_of (boundary_transformation lo up y)) (nhds c)"
    unfolding eventually_nhds
  proof (intro exI[of _ ?S] conjI ballI)
    show "open ?S" by simp
    show "c \<in> ?S" using assms(2,3) by simp
    fix y assume "y \<in> ?S"
    then show "value_of (transform_elem lo up y) = value_of (boundary_transformation lo up y)"
      using transform_elem_near_box[OF assms(1), of y] by simp
  qed
  then have "isCont (\<lambda>y. value_of (transform_elem lo up y)) c
     = isCont (\<lambda>y. value_of (boundary_transformation lo up y)) c"
    by (rule isCont_cong)
  then show ?thesis using boundary_transformation_continuous[of lo up c] assms(1) by simp
qed

section \<open>Index clamping\<close>

lemma wrap_pred:
  fixes n m :: nat
  assumes "0 < n"
  shows "(n + m - 1) mod m = (n - 1) mod m"
proof -
  have "n + m - 1 = (n - 1) + m" using assms by simp
  then show ?thesis by simp
qed

lemma clamp_index_min:
  assumes "0 < n" "n \<le> 2 ^ 64"
  shows "clamp_index i n = min i (n - 1)"
proof (cases "i < n")
  case True
  then show ?thesis by (simp add: clamp_index_def)
next
  case False
  have "(n + 2 ^ 64 - 1) mod 2 ^ 64 = (n - 1) mod 2 ^ 64"
    using assms(1) by (rule wrap_pred)
  also have "\<dots> = n - 1" using assms by (intro mod_less) simp
  finally have "clamp_index i n = n - 1" using False by (simp only: clamp_index_def if_False)
  then show ?thesis using False by simp
qed

lemma clamp_index_less:
  assumes "0 < n"
  shows "clamp_index i n < n"
proof (cases "i < n")
  case True
  then show ?thesis by (simp add: clamp_index_def)
next
  case False
  have "(n + 2 ^ 64 - 1) mod 2 ^ 64 = (n - 1) mod 2 ^ 64"
    using assms(1) by (rule wrap_pred)
  also have "\<dots> \<le> n - 1" by (rule mod_less_eq_dividend)
  finally have "clamp_index i n \<le> n - 1" using False by (simp only: clamp_index_def if_False)
  then show ?thesis using assms by simp
qed

lemma clamp_index_zero: "clamp_index i 0 = 2 ^ 64 - 1"
  by (simp add: clamp_index_def)

lemma cell_result_scalar:
  "cell_result (BoundaryBoxConstraint_scalar lo up) x i j = ebind (mat_at x i j) (transform_elem lo up)"
proof -
  have "clamp_index i 1 = 0" "clamp_index j 1 = 0" for i j
    using clamp_index_less[of 1] by simp_all
  then show ?thesis
    by (simp add: cell_result_def BoundaryBoxConstraint_scalar_def scalar_mat_def mat_at_def ebind_def)
qed

section \<open>The loops compute the element map\<close>

lemma idx_lt: "i < nr \<Longrightarrow> j < nc \<Longrightarrow> i + j * nr < nr * (nc::nat)"
proof -
  assume a: "i < nr" "j < nc"
  have "i + j * nr < nr + j * nr" using a by simp
  also have "\<dots> = Suc j * nr" by simp
  also have "\<dots> \<le> nc * nr" using a by (intro mult_le_mono1) simp
  finally show ?thesis by (simp add: mult.commute)
qed

lemma idx_inj: "i < nr \<Longrightarrow> i' < nr \<Longrightarrow> i + j * nr = i' + j' * (nr::nat) \<Longrightarrow> i = i' \<and> j = j'"
proof -
  assume a: "i < nr" "i' < nr" "i + j * nr = i' + j' * nr"
  from a(3) have "(i + j * nr) mod nr = (i' + j' * nr) mod nr" by simp
  then have i: "i = i'" using a(1,2) by simp
  from a(3) have "(i + j * nr) div nr = (i' + j' * nr) div nr" by simp
  then have "j = j'" using a(1,2) by simp
  with i show ?thesis by simp
qed

lemma mat_put_props:
  assumes "wf_mat m" "mat_put m i j v = Inr m'"
  shows "n_rows m' = n_rows m" "n_cols m' = n_cols m" "wf_mat m'"
    "i' < n_rows m \<Longrightarrow> j' < n_cols m \<Longrightarrow>
       mat_at m' i' j' = (if i' = i \<and> j' = j then Inr v else mat_at m i' j')"
proof -
  from assms(2) have r: "i < n_rows m" "j < n_cols m"
    and m': "m' = m\<lparr>mem := (mem m)[i + j * n_rows m := v]\<rparr>"
    by (auto simp: mat_put_def split: if_splits)
  show "n_rows m' = n_rows m" "n_cols m' = n_cols m" "wf_mat m'"
    using assms(1) by (simp_all add: m' wf_mat_def)
  assume q: "i' < n_rows m" "j' < n_cols m"
  have lt: "i + j * n_rows m < length (mem m)" "i' + j' * n_rows m < length (mem m)"
    using assms(1) r q idx_lt by (simp_all add: wf_mat_def)
  show "mat_at m' i' j' = (if i' = i \<and> j' = j then Inr v else mat_at m i' j')"
    using q r lt idx_inj[of i "n_rows m" i' j j']
    by (auto simp: m' mat_at_def nth_list_update)
qed


lemma mat_put_in_range:
  "i < n_rows m \<Longrightarrow> j < n_cols m \<Longrightarrow> \<exists>m'. mat_put m i j v = Inr m'"
  by (simp add: mat_put_def)

lemma Transform_step_cell:
  "Transform_step P (clamp_index i (n_rows (lowerBound P))) i j y =
     ebind (cell_result P y i j) (mat_put y i j)"
  by (simp add: Transform_step_def cell_result_def ebind_def Let_def split: sum.splits)

lemma cell_result_cong:
  "mat_at y1 i j = mat_at y i j \<Longrightarrow> cell_result P y1 i j = cell_result P y i j"
  by (simp add: cell_result_def)

lemma loop_cols_char:
  "wf_mat y \<Longrightarrow> i < n_rows y \<Longrightarrow> nc = n_cols y \<Longrightarrow> Bi = clamp_index i (n_rows (lowerBound P)) \<Longrightarrow>
   cols_post P i j y (loop_cols P nc Bi i j y)"
proof (induction P nc Bi i j y rule: loop_cols.induct)
  case (1 P nc Bi i j y)
  show ?case
  proof (cases "j < nc")
    case False
    then have "loop_cols P nc Bi i j y = Inr y"
      by (simp add: loop_cols.simps[of P nc Bi i j y])
    then show ?thesis using 1(2,4) False by (simp add: cols_post_def)
  next
    case True
    show ?thesis
    proof (cases "cell_result P y i j")
      case (Inl e)
      then have "Transform_step P Bi i j y = Inl e"
        unfolding 1(5) by (simp add: Transform_step_cell ebind_def)
      then have "loop_cols P nc Bi i j y = Inl e"
        using True by (simp add: loop_cols.simps[of P nc Bi i j y])
      then show ?thesis using Inl True 1(4) by (auto simp: cols_post_def)
    next
      case (Inr w)
      from True 1(3,4) obtain y1 where put: "mat_put y i j w = Inr y1"
        using mat_put_in_range by blast
      have step: "Transform_step P Bi i j y = Inr y1"
        unfolding 1(5) using Inr put by (simp add: Transform_step_cell ebind_def)
      have eq: "loop_cols P nc Bi i j y = loop_cols P nc Bi i (Suc j) y1"
        using True step by (simp add: loop_cols.simps[of P nc Bi i j y])
      note pp = mat_put_props[OF 1(2) put]
      have ih: "cols_post P i (Suc j) y1 (loop_cols P nc Bi i (Suc j) y1)"
        using 1(1)[OF True step] pp 1(3,4,5) by simp
      have same: "\<And>j'. Suc j \<le> j' \<Longrightarrow> j' < n_cols y \<Longrightarrow> cell_result P y1 i j' = cell_result P y i j'"
        using pp(4) 1(3) by (intro cell_result_cong) simp
      show ?thesis
      proof (cases "loop_cols P nc Bi i (Suc j) y1")
        case (Inl e)
        with ih obtain j' where "Suc j \<le> j'" "j' < n_cols y1" "cell_result P y1 i j' = Inl e"
          by (auto simp: cols_post_def)
        then have "j \<le> j'" "j' < n_cols y" "cell_result P y i j' = Inl e"
          using same pp(2) by simp_all
        then show ?thesis using Inl eq by (auto simp: cols_post_def)
      next
        case r: (Inr y')
        from ih r have d: "n_rows y' = n_rows y1" "n_cols y' = n_cols y1" "wf_mat y'"
          and c: "\<And>i' j'. i' < n_rows y1 \<Longrightarrow> j' < n_cols y1 \<Longrightarrow>
             mat_at y' i' j' = (if i' = i \<and> Suc j \<le> j' then cell_result P y1 i' j' else mat_at y1 i' j')"
          by (auto simp: cols_post_def)
        have "mat_at y' i' j' = (if i' = i \<and> j \<le> j' then cell_result P y i' j' else mat_at y i' j')"
          if "i' < n_rows y" "j' < n_cols y" for i' j'
        proof (cases "i' = i \<and> Suc j \<le> j'")
          case True
          then show ?thesis using c[of i' j'] that pp same by simp
        next
          case False
          then have "mat_at y' i' j' = mat_at y1 i' j'" using c[of i' j'] that pp(1,2) by auto
          also have "\<dots> = (if i' = i \<and> j' = j then Inr w else mat_at y i' j')"
            using pp(4) that by simp
          finally show ?thesis using False Inr by (auto simp: not_less_eq_eq)
        qed
        then show ?thesis using r eq d pp by (simp add: cols_post_def)
      qed
    qed
  qed
qed


lemma loop_rows_char:
  "wf_mat y \<Longrightarrow> nr = n_rows y \<Longrightarrow> nc = n_cols y \<Longrightarrow>
   rows_post P i y (loop_rows P nr nc i y)"
proof (induction P nr nc i y rule: loop_rows.induct)
  case (1 P nr nc i y)
  let ?Bi = "clamp_index i (n_rows (lowerBound P))"
  show ?case
  proof (cases "i < nr")
    case False
    then have "loop_rows P nr nc i y = Inr y"
      by (simp add: loop_rows.simps[of P nr nc i y])
    then show ?thesis using 1(2,3) False by (simp add: rows_post_def)
  next
    case True
    have inner: "cols_post P i 0 y (loop_cols P nc ?Bi i 0 y)"
      using loop_cols_char[of y i nc ?Bi P 0] 1(2,3,4) True by simp
    show ?thesis
    proof (cases "loop_cols P nc ?Bi i 0 y")
      case (Inl e)
      then have "loop_rows P nr nc i y = Inl e"
        using True by (simp add: loop_rows.simps[of P nr nc i y])
      moreover from inner Inl obtain j' where "j' < n_cols y" "cell_result P y i j' = Inl e"
        by (auto simp: cols_post_def)
      ultimately show ?thesis using True 1(3) by (auto simp: rows_post_def)
    next
      case (Inr y1)
      have eq: "loop_rows P nr nc i y = loop_rows P nr nc (Suc i) y1"
        using True Inr by (simp add: loop_rows.simps[of P nr nc i y])
      from inner Inr have d1: "n_rows y1 = n_rows y" "n_cols y1 = n_cols y" "wf_mat y1"
        and c1: "\<And>i' j'. i' < n_rows y \<Longrightarrow> j' < n_cols y \<Longrightarrow>
           mat_at y1 i' j' = (if i' = i then cell_result P y i' j' else mat_at y i' j')"
        by (auto simp: cols_post_def)
      have ih: "rows_post P (Suc i) y1 (loop_rows P nr nc (Suc i) y1)"
        using 1(1)[OF True Inr] d1 1(3,4) by simp
      have same: "\<And>i' j'. Suc i \<le> i' \<Longrightarrow> i' < n_rows y \<Longrightarrow> j' < n_cols y \<Longrightarrow>
          cell_result P y1 i' j' = cell_result P y i' j'"
        using c1 by (intro cell_result_cong) simp
      show ?thesis
      proof (cases "loop_rows P nr nc (Suc i) y1")
        case (Inl e)
        with ih obtain i' j' where "Suc i \<le> i'" "i' < n_rows y1" "j' < n_cols y1"
          "cell_result P y1 i' j' = Inl e"
          by (auto simp: rows_post_def)
        then have "i \<le> i'" "i' < n_rows y" "j' < n_cols y" "cell_result P y i' j' = Inl e"
          using same d1 by simp_all
        then show ?thesis using Inl eq by (auto simp: rows_post_def)
      next
        case r: (Inr y')
        from ih r have d: "n_rows y' = n_rows y1" "n_cols y' = n_cols y1" "wf_mat y'"
          and c: "\<And>i' j'. i' < n_rows y1 \<Longrightarrow> j' < n_cols y1 \<Longrightarrow>
             mat_at y' i' j' = (if Suc i \<le> i' then cell_result P y1 i' j' else mat_at y1 i' j')"
          by (auto simp: rows_post_def)
        have "mat_at y' i' j' = (if i \<le> i' then cell_result P y i' j' else mat_at y i' j')"
          if "i' < n_rows y" "j' < n_cols y" for i' j'
        proof (cases "Suc i \<le> i'")
          case True
          then show ?thesis using c[of i' j'] that d1 same by simp
        next
          case False
          then have "mat_at y' i' j' = mat_at y1 i' j'" using c[of i' j'] that d1(1,2) by auto
          also have "\<dots> = (if i' = i then cell_result P y i' j' else mat_at y i' j')"
            using c1 that by simp
          finally show ?thesis using False by (auto simp: not_less_eq_eq)
        qed
        then show ?thesis using r eq d d1 by (simp add: rows_post_def)
      qed
    qed
  qed
qed

lemma Transform_char:
  "wf_mat x \<Longrightarrow> rows_post P 0 x (Transform P x)"
  unfolding Transform_def by (rule loop_rows_char) simp_all

lemma Transform_Inr:
  assumes "wf_mat x" "Transform P x = Inr y"
  shows "n_rows y = n_rows x" "n_cols y = n_cols x" "wf_mat y"
    "i < n_rows x \<Longrightarrow> j < n_cols x \<Longrightarrow> mat_at y i j = cell_result P x i j"
  using Transform_char[OF assms(1), of P] assms(2) by (simp_all add: rows_post_def)

lemma Transform_Inl:
  assumes "wf_mat x" "Transform P x = Inl e"
  shows "\<exists>i j. i < n_rows x \<and> j < n_cols x \<and> cell_result P x i j = Inl e"
  using Transform_char[OF assms(1), of P] assms(2) by (simp add: rows_post_def)

lemma Transform_total:
  assumes "wf_mat x" "\<And>i j. i < n_rows x \<Longrightarrow> j < n_cols x \<Longrightarrow> \<exists>v. cell_result P x i j = Inr v"
  shows "\<exists>y. Transform P x = Inr y"
proof (cases "Transform P x")
  case (Inl e)
  from Transform_Inl[OF assms(1) Inl] assms(2) show ?thesis by fastforce
next
  case (Inr y)
  then show ?thesis by simp
qed

lemma mat_eqI:
  assumes "wf_mat a" "wf_mat b" "n_rows a = n_rows b" "n_cols a = n_cols b"
    and c: "\<And>i j. i < n_rows a \<Longrightarrow> j < n_cols a \<Longrightarrow> mat_at a i j = mat_at b i j"
  shows "a = (b :: mat)"
proof -
  have len: "length (mem a) = length (mem b)"
    using assms(1-4) by (simp add: wf_mat_def)
  have "mem a ! k = mem b ! k" if k: "k < length (mem a)" for k
  proof -
    let ?nr = "n_rows a"
    from k assms(1) have kk: "k < ?nr * n_cols a" by (simp add: wf_mat_def)
    then have pos: "0 < ?nr" by (cases "?nr = 0") simp_all
    have i: "k mod ?nr < ?nr" using pos by simp
    have j: "k div ?nr < n_cols a" using kk by (simp add: less_mult_imp_div_less mult.commute)
    have "mat_at a (k mod ?nr) (k div ?nr) = mat_at b (k mod ?nr) (k div ?nr)"
      using c[OF i j] .
    then show ?thesis using i j assms(3,4) by (simp add: mat_at_def)
  qed
  then have "mem a = mem b" using len by (intro nth_equalityI) simp_all
  then show ?thesis using assms(3,4) by simp
qed

lemma in_band_cell:
  assumes "in_band P x i j"
  shows "cell_result P x i j = mat_at x i j"
proof -
  let ?Bi = "clamp_index i (n_rows (lowerBound P))" and ?Bj = "clamp_index j (n_cols (lowerBound P))"
  from assms obtain lo up v where b: "mat_at (lowerBound P) ?Bi ?Bj = Inr lo"
    "mat_at (upperBound P) ?Bi ?Bj = Inr up" "mat_at x i j = Inr v"
    and r: "lo < up" "lo + al_of lo up \<le> v" "v \<le> up - au_of lo up"
    by (auto simp: in_band_def Let_def split: sum.splits)
  have "transform_elem lo up v = Inr v" using r by (intro transform_elem_band) simp_all
  then show ?thesis using b by (simp add: cell_result_def ebind_def)
qed

lemma Transform_in_box_if_period_ge_1:
  assumes "wf_mat x" "Transform P x = Inr y" "i < n_rows x" "j < n_cols x"
    and "mat_at (lowerBound P) (clamp_index i (n_rows (lowerBound P)))
           (clamp_index j (n_cols (lowerBound P))) = Inr lo"
    and "mat_at (upperBound P) (clamp_index i (n_rows (lowerBound P)))
           (clamp_index j (n_cols (lowerBound P))) = Inr up"
    and "1 \<le> r_of lo up"
  shows "\<exists>z. mat_at y i j = Inr z \<and> lo \<le> z \<and> z \<le> up"
proof -
  note t = Transform_Inr[OF assms(1,2)]
  obtain v where v: "mat_at x i j = Inr v" using assms(3,4) by (simp add: mat_at_def)
  obtain z where z: "mat_at y i j = Inr z" using assms(3,4) t(1,2) by (simp add: mat_at_def)
  have "cell_result P x i j = transform_elem lo up v"
    using assms(5,6) v by (simp add: cell_result_def ebind_def)
  then have "transform_elem lo up v = Inr z" using t(4)[OF assms(3,4)] z by simp
  from transform_elem_in_bounds[OF assms(7) this] z show ?thesis by simp
qed

lemma cell_result_not_oob:
  assumes "i < n_rows x" "j < n_cols x"
    and "0 < n_rows (lowerBound P)" "0 < n_cols (lowerBound P)"
    and "n_rows (lowerBound P) \<le> n_rows (upperBound P)"
    and "n_cols (lowerBound P) \<le> n_cols (upperBound P)"
  shows "cell_result P x i j \<noteq> Inl OutOfBounds"
proof -
  let ?Bi = "clamp_index i (n_rows (lowerBound P))" and ?Bj = "clamp_index j (n_cols (lowerBound P))"
  have b: "?Bi < n_rows (lowerBound P)" "?Bj < n_cols (lowerBound P)"
    using assms(3,4) by (simp_all add: clamp_index_less)
  then have "?Bi < n_rows (upperBound P)" "?Bj < n_cols (upperBound P)"
    using assms(5,6) by simp_all
  then obtain lo up v where "mat_at (lowerBound P) ?Bi ?Bj = Inr lo"
    "mat_at (upperBound P) ?Bi ?Bj = Inr up" "mat_at x i j = Inr v"
    using b assms(1,2) by (simp add: mat_at_def)
  then have "cell_result P x i j = transform_elem lo up v"
    by (simp add: cell_result_def ebind_def)
  then show ?thesis using transform_elem_not_oob[of lo up v] by simp
qed

lemma Transform_default_oob:
  assumes "0 < n_rows x" "0 < n_cols x"
  shows "Transform BoundaryBoxConstraint_default x = Inl OutOfBounds"
proof -
  have "Transform_step BoundaryBoxConstraint_default Bi 0 0 x = Inl OutOfBounds" for Bi
    by (simp add: Transform_step_def BoundaryBoxConstraint_default_def empty_mat_def mat_at_def
        ebind_def)
  then have "loop_cols BoundaryBoxConstraint_default (n_cols x) Bi 0 0 x = Inl OutOfBounds" for Bi
    using assms(2) by (simp add: loop_cols.simps[of _ _ _ 0 0 x])
  then show ?thesis
    using assms(1) by (simp add: Transform_def loop_rows.simps[of _ _ _ 0 x])
qed

section \<open>The minimum of the column minima\<close>

lemma Min_of_Mins:
  fixes f :: "nat \<Rightarrow> nat \<Rightarrow> real"
  assumes "finite A" "A \<noteq> {}" "finite B" "B \<noteq> {}"
  shows "Min ((\<lambda>j. Min ((\<lambda>i. f i j) ` A)) ` B) = Min ((\<lambda>(i, j). f i j) ` (A \<times> B))"
proof -
  let ?M = "Min ((\<lambda>j. Min ((\<lambda>i. f i j) ` A)) ` B)"
  have "Min ((\<lambda>(i, j). f i j) ` (A \<times> B)) = ?M"
  proof (rule Min_eqI)
    show "finite ((\<lambda>(i, j). f i j) ` (A \<times> B))" using assms by simp
  next
    fix y assume "y \<in> (\<lambda>(i, j). f i j) ` (A \<times> B)"
    then obtain i j where ij: "i \<in> A" "j \<in> B" "y = f i j" by auto
    have "?M \<le> Min ((\<lambda>i. f i j) ` A)" using assms ij by (intro Min_le) simp_all
    also have "\<dots> \<le> f i j" using assms ij by (intro Min_le) simp_all
    finally show "?M \<le> y" using ij by simp
  next
    have "?M \<in> (\<lambda>j. Min ((\<lambda>i. f i j) ` A)) ` B" using assms by (intro Min_in) simp_all
    then obtain j where j: "j \<in> B" "?M = Min ((\<lambda>i. f i j) ` A)" by auto
    have "Min ((\<lambda>i. f i j) ` A) \<in> (\<lambda>i. f i j) ` A" using assms by (intro Min_in) simp_all
    then obtain i where "i \<in> A" "Min ((\<lambda>i. f i j) ` A) = f i j" by auto
    then show "?M \<in> (\<lambda>(i, j). f i j) ` (A \<times> B)" using j by force
  qed
  then show ?thesis by simp
qed

lemma set_mat_col:
  assumes "wf_mat m" "j < n_cols m"
  shows "set (mat_col m j) = (\<lambda>i. mem m ! (i + j * n_rows m)) ` {..<n_rows m}"
proof -
  let ?nr = "n_rows m"
  have "Suc j * ?nr \<le> n_cols m * ?nr" using assms(2) by (intro mult_le_mono1) simp
  then have le: "j * ?nr + ?nr \<le> length (mem m)"
    using assms(1) by (simp add: wf_mat_def mult.commute)
  then have len: "length (mat_col m j) = ?nr" by (simp add: mat_col_def)
  have nth: "mat_col m j ! i = mem m ! (i + j * ?nr)" if "i < ?nr" for i
    using that le by (simp add: mat_col_def add.commute)
  have "set (mat_col m j) = (\<lambda>i. mat_col m j ! i) ` {..<length (mat_col m j)}"
    by (auto simp: set_conv_nth)
  also have "\<dots> = (\<lambda>i. mem m ! (i + j * ?nr)) ` {..<?nr}"
    using nth len by (intro image_cong) simp_all
  finally show ?thesis .
qed

section \<open>Evaluation at concrete inputs\<close>

text \<open>
  The bounds \<open>[0, 1/16]\<close> give the period \<open>r = 1/4\<close>. All values below are dyadic
  rationals, so the computation is exact in binary floating point as well.
\<close>

lemma params_small:
  "al_of 0 (1/16) = 1/32" "au_of 0 (1/16) = 1/32"
  "xlow_of 0 (1/16) = -(3/32)" "xup_of 0 (1/16) = 5/32" "r_of 0 (1/16) = 1/4"
  by (simp_all add: bbc_params)

lemma shift_small: "shift_preimage 0 (1/16) (-1) = Inr (-(3/4))"
  by (simp add: shift_preimage_def shift_up_def shift_down_def params_small ebind_def
      int_cast_def fdiv_def)

lemma reflect_small: "reflect 0 (1/16) (-(3/4)) = -(1/2)"
  by (simp add: reflect_def reflect_lower_def reflect_upper_def params_small)

lemma elem_small: "transform_elem 0 (1/16) (-1) = Inr (225/128)"
  by (simp add: transform_elem_def shift_small reflect_small boundary_transformation_def
      smooth_lower_def params_small ebind_def fdiv_def)

text \<open>The bounds \<open>[0, 2]\<close> of the test suite, period \<open>r = 22/5\<close>.\<close>

lemma elem_far: "transform_elem 0 2 50 = Inr (3/10)"
proof -
  have p: "al_of 0 2 = 1/20" "au_of 0 2 = 3/20" "xlow_of 0 2 = -(11/10)" "xup_of 0 2 = 33/10"
    "r_of 0 2 = 22/5"
    by (simp_all add: bbc_params)
  have s: "shift_preimage 0 2 50 = Inr (-(2/5))"
    by (simp add: shift_preimage_def shift_up_def shift_down_def p ebind_def int_cast_def fdiv_def)
  have r: "reflect 0 2 (-(2/5)) = 3/10"
    by (simp add: reflect_def reflect_lower_def reflect_upper_def p)
  show ?thesis
    using r by (simp add: transform_elem_def s boundary_transformation_def p ebind_def)
qed

lemma elem_near: "transform_elem 0 2 3 = Inr (13/10)"
proof -
  have p: "al_of 0 2 = 1/20" "au_of 0 2 = 3/20" "xlow_of 0 2 = -(11/10)" "xup_of 0 2 = 33/10"
    "r_of 0 2 = 22/5"
    by (simp_all add: bbc_params)
  have s: "shift_preimage 0 2 3 = Inr 3"
    by (simp add: shift_preimage_def shift_up_def shift_down_def p ebind_def)
  have r: "reflect 0 2 3 = 13/10"
    by (simp add: reflect_def reflect_lower_def reflect_upper_def p)
  show ?thesis
    using r by (simp add: transform_elem_def s boundary_transformation_def p ebind_def)
qed

lemma elem_mid: "transform_elem 0 2 1 = Inr 1"
  by (rule transform_elem_band) (simp_all add: bbc_params)

lemma elem_wide: "transform_elem 0 104 50 = Inr 50"
  by (rule transform_elem_band) (simp_all add: bbc_params)

section \<open>Properties\<close>

text \<open>
  C1. Every element of the matrix returned by \<open>Transform\<close> lies in
  \<open>[lowerBound, upperBound]\<close> for its dimension. The code does not achieve this when
  the period \<open>r\<close> is below 1: with the scalar bounds 0 and 1/16 the input \<open>-1\<close> is
  mapped to \<open>225/128\<close>, which is above the upper bound. (For bounds whose period is at
  least 1 every result of \<open>Transform\<close> is inside the box, see
  \<open>Transform_in_box_if_period_ge_1\<close>.)
\<close>

theorem Transform_leaves_box:
  "Transform (BoundaryBoxConstraint_scalar 0 (1/16)) (scalar_mat (-1)) = Inr (scalar_mat (225/128))
   \<and> mat_at (scalar_mat (225/128)) 0 0 = Inr (225/128)
   \<and> mat_at (upperBound (BoundaryBoxConstraint_scalar 0 (1/16))) 0 0 = Inr (1/16)
   \<and> (1/16 :: real) < 225/128"
  by (simp add: Transform_def loop_rows.simps loop_cols.simps Transform_step_def
      BoundaryBoxConstraint_scalar_def scalar_mat_def clamp_index_def mat_at_def mat_put_def
      ebind_def elem_small)

text \<open>
  C2. On a dimension with \<open>lower = upper\<close> the divisions by \<open>al\<close>, \<open>au\<close> and
  \<open>r\<close> are guarded and the element is left as it is. The code does not achieve this:
  it has no guard, and with the scalar bounds 1 and 1 (so \<open>r = 0\<close>) the input 0 reaches
  the division by \<open>r\<close> of the periodic shift.
\<close>

theorem Transform_degenerate_divides:
  "Transform (BoundaryBoxConstraint_scalar 1 1) (scalar_mat 0) = Inl DivisionByZero"
  by (simp add: Transform_def loop_rows.simps loop_cols.simps Transform_step_def
      BoundaryBoxConstraint_scalar_def scalar_mat_def clamp_index_def mat_at_def mat_put_def
      ebind_def transform_elem_degenerate int_cast_def)

text \<open>
  C3. One application of the periodic shift brings every element into
  \<open>[xlow, xup]\<close>, so that one reflection brings it into \<open>[lower - al, upper + au]\<close>.
  The code does not achieve this when the period is below 1: for the bounds 0 and 1/16
  the input \<open>-1\<close> is shifted to \<open>-3/4\<close>, below \<open>xlow = -3/32\<close>, and then reflected
  to \<open>-1/2\<close>, below \<open>lower - al = -1/32\<close>.
\<close>

theorem shift_misses_preimage:
  "shift_preimage 0 (1/16) (-1) = Inr (-(3/4)) \<and> -(3/4) < xlow_of 0 (1/16)
   \<and> reflect 0 (1/16) (-(3/4)) = -(1/2) \<and> -(1/2) < 0 - al_of 0 (1/16)"
  by (simp add: shift_small reflect_small params_small)

text \<open>
  C4. With non-degenerate bounds, an element inside \<open>[lower + al, upper - au]\<close> for its
  dimension is mapped to itself, whatever the other elements are; a matrix all of whose
  elements are inside their bands is returned unchanged.
\<close>

theorem Transform_identity_on_band:
  assumes "wf_mat x" "i < n_rows x" "j < n_cols x" "in_band P x i j"
  shows "cell_result P x i j = mat_at x i j
     \<and> (\<forall>y. Transform P x = Inr y \<longrightarrow> mat_at y i j = mat_at x i j)
     \<and> ((\<forall>i' < n_rows x. \<forall>j' < n_cols x. in_band P x i' j') \<longrightarrow> Transform P x = Inr x)"
proof (intro conjI allI impI)
  show c: "cell_result P x i j = mat_at x i j" using assms(4) by (rule in_band_cell)
  show "mat_at y i j = mat_at x i j" if "Transform P x = Inr y" for y
    using Transform_Inr(4)[OF assms(1) that assms(2,3)] c by simp
  assume all: "\<forall>i' < n_rows x. \<forall>j' < n_cols x. in_band P x i' j'"
  have cells: "\<And>i' j'. i' < n_rows x \<Longrightarrow> j' < n_cols x \<Longrightarrow> cell_result P x i' j' = mat_at x i' j'"
    using all in_band_cell by blast
  have "\<exists>y. Transform P x = Inr y"
  proof (rule Transform_total[OF assms(1)])
    fix i' j' assume "i' < n_rows x" "j' < n_cols x"
    then show "\<exists>v. cell_result P x i' j' = Inr v"
      using cells[of i' j'] by (simp add: mat_at_def)
  qed
  then obtain y where y: "Transform P x = Inr y" ..
  note t = Transform_Inr[OF assms(1) y]
  have "y = x"
  proof (rule mat_eqI[OF t(3) assms(1) t(1,2)])
    fix i' j' assume "i' < n_rows y" "j' < n_cols y"
    then show "mat_at y i' j' = mat_at x i' j'"
      using t(1,2) t(4)[of i' j'] cells[of i' j'] by simp
  qed
  then show "Transform P x = Inr x" using y by simp
qed

theorem Transform_identity_on_band_witness:
  "wf_mat (scalar_mat 1) \<and> (0::nat) < n_rows (scalar_mat 1) \<and> (0::nat) < n_cols (scalar_mat 1)
   \<and> in_band (BoundaryBoxConstraint_scalar 0 2) (scalar_mat 1) 0 0
   \<and> cell_result (BoundaryBoxConstraint_scalar 0 2) (scalar_mat 1) 0 0 = mat_at (scalar_mat 1) 0 0
   \<and> Transform (BoundaryBoxConstraint_scalar 0 2) (scalar_mat 1) = Inr (scalar_mat 1)"
proof -
  have b: "in_band (BoundaryBoxConstraint_scalar 0 2) (scalar_mat 1) 0 0"
    by (simp add: in_band_def BoundaryBoxConstraint_scalar_def scalar_mat_def clamp_index_def
        mat_at_def bbc_params)
  have w: "wf_mat (scalar_mat 1)" by (simp add: wf_mat_def scalar_mat_def)
  have d: "(0::nat) < n_rows (scalar_mat 1)" "(0::nat) < n_cols (scalar_mat 1)"
    by (simp_all add: scalar_mat_def)
  have a: "\<forall>i' < n_rows (scalar_mat 1). \<forall>j' < n_cols (scalar_mat 1).
         in_band (BoundaryBoxConstraint_scalar 0 2) (scalar_mat 1) i' j'"
    using b by (simp add: scalar_mat_def)
  from Transform_identity_on_band[OF w d b] a w d b show ?thesis by blast
qed

text \<open>
  C5. The element map has no jump at the band edges: the lower quadratic branch taken
  at \<open>lower + al\<close> gives \<open>lower + al\<close>, the upper one taken at \<open>upper - au\<close>
  gives \<open>upper - au\<close>, which are the values of the identity branch there, and the
  element map is continuous at both edges.
\<close>

theorem smoothing_continuous_at_band_edges:
  assumes "lo < up"
  shows "smooth_lower lo (al_of lo up) (lo + al_of lo up) = Inr (lo + al_of lo up)
     \<and> smooth_upper up (au_of lo up) (up - au_of lo up) = Inr (up - au_of lo up)
     \<and> transform_elem lo up (lo + al_of lo up) = Inr (lo + al_of lo up)
     \<and> transform_elem lo up (up - au_of lo up) = Inr (up - au_of lo up)
     \<and> isCont (\<lambda>y. value_of (transform_elem lo up y)) (lo + al_of lo up)
     \<and> isCont (\<lambda>y. value_of (transform_elem lo up y)) (up - au_of lo up)"
proof -
  have a: "0 < al_of lo up" "0 < au_of lo up" using assms al_pos au_pos by simp_all
  note ord = band_edges_ordered[of lo up]
  have ne: "lo \<noteq> up" using assms by simp
  have "transform_elem lo up (lo + al_of lo up) = Inr (lo + al_of lo up)"
    "transform_elem lo up (up - au_of lo up) = Inr (up - au_of lo up)"
    using assms ord by (simp_all add: transform_elem_band)
  moreover have "isCont (\<lambda>y. value_of (transform_elem lo up y)) (lo + al_of lo up)"
    using a ord by (intro transform_elem_continuous_near_box[OF assms]) simp_all
  moreover have "isCont (\<lambda>y. value_of (transform_elem lo up y)) (up - au_of lo up)"
    using a ord by (intro transform_elem_continuous_near_box[OF assms]) simp_all
  ultimately show ?thesis using smooth_edges[OF ne] by simp
qed

theorem smoothing_continuous_at_band_edges_witness:
  "(0::real) < 2
   \<and> smooth_lower 0 (al_of 0 2) (0 + al_of 0 2) = Inr (1/20)
   \<and> smooth_upper 2 (au_of 0 2) (2 - au_of 0 2) = Inr (37/20)
   \<and> isCont (\<lambda>y. value_of (transform_elem 0 2 y)) (0 + al_of 0 2)"
proof -
  have h: "(0::real) < 2" by simp
  have p: "al_of 0 2 = 1/20" "au_of 0 2 = 3/20" by (simp_all add: bbc_params)
  from smoothing_continuous_at_band_edges[OF h] show ?thesis by (simp add: p)
qed

text \<open>
  C6. Both bounds are read at \<open>(min i (n_rows - 1), min j (n_cols - 1))\<close>, where
  \<open>n_rows\<close> and \<open>n_cols\<close> are the extent of \<open>lowerBound\<close>: a coordinate beyond the
  extent of \<open>lowerBound\<close> reuses the last entry of \<open>lowerBound\<close> and the entry of
  \<open>upperBound\<close> at that same index. \<open>Transform\<close> keeps the extent of its argument,
  each element of its result is the element map applied with the bounds read there, it
  fails only where an element fails, and it returns when every element does. With the
  scalar constructor every element is transformed with the one pair of bounds.
\<close>

theorem bounds_read_at_lowerBound_clamp:
  assumes "0 < n_rows (lowerBound P)" "0 < n_cols (lowerBound P)"
    and "n_rows (lowerBound P) < 2 ^ 64" "n_cols (lowerBound P) < 2 ^ 64"
    and "wf_mat x"
  shows "(\<forall>i j. clamp_index i (n_rows (lowerBound P)) = min i (n_rows (lowerBound P) - 1)
             \<and> clamp_index j (n_cols (lowerBound P)) = min j (n_cols (lowerBound P) - 1)
             \<and> cell_result P x i j =
                 ebind (mat_at (upperBound P) (min i (n_rows (lowerBound P) - 1)) (min j (n_cols (lowerBound P) - 1))) (\<lambda>up.
                 ebind (mat_at (lowerBound P) (min i (n_rows (lowerBound P) - 1)) (min j (n_cols (lowerBound P) - 1))) (\<lambda>lo.
                 ebind (mat_at x i j) (transform_elem lo up))))
     \<and> (case Transform P x of
           Inr y \<Rightarrow> n_rows y = n_rows x \<and> n_cols y = n_cols x \<and>
             (\<forall>i j. i < n_rows x \<and> j < n_cols x \<longrightarrow> mat_at y i j = cell_result P x i j)
         | Inl e \<Rightarrow> \<exists>i j. i < n_rows x \<and> j < n_cols x \<and> cell_result P x i j = Inl e)
     \<and> ((\<forall>i j. i < n_rows x \<and> j < n_cols x \<longrightarrow> (\<exists>v. cell_result P x i j = Inr v))
           \<longrightarrow> (\<exists>y. Transform P x = Inr y))
     \<and> (\<forall>lo up i j. cell_result (BoundaryBoxConstraint_scalar lo up) x i j
           = ebind (mat_at x i j) (transform_elem lo up))"
proof (intro conjI allI)
  fix i j
  show ci: "clamp_index i (n_rows (lowerBound P)) = min i (n_rows (lowerBound P) - 1)"
    using assms(1,3) by (intro clamp_index_min) simp_all
  show cj: "clamp_index j (n_cols (lowerBound P)) = min j (n_cols (lowerBound P) - 1)"
    using assms(2,4) by (intro clamp_index_min) simp_all
  show "cell_result P x i j =
         ebind (mat_at (upperBound P) (min i (n_rows (lowerBound P) - 1)) (min j (n_cols (lowerBound P) - 1))) (\<lambda>up.
         ebind (mat_at (lowerBound P) (min i (n_rows (lowerBound P) - 1)) (min j (n_cols (lowerBound P) - 1))) (\<lambda>lo.
         ebind (mat_at x i j) (transform_elem lo up)))"
    by (simp add: cell_result_def ci cj Let_def)
next
  show "case Transform P x of
           Inr y \<Rightarrow> n_rows y = n_rows x \<and> n_cols y = n_cols x \<and>
             (\<forall>i j. i < n_rows x \<and> j < n_cols x \<longrightarrow> mat_at y i j = cell_result P x i j)
         | Inl e \<Rightarrow> \<exists>i j. i < n_rows x \<and> j < n_cols x \<and> cell_result P x i j = Inl e"
  proof (cases "Transform P x")
    case (Inl e)
    then show ?thesis using Transform_Inl[OF assms(5) Inl] by simp
  next
    case (Inr y)
    then show ?thesis using Transform_Inr[OF assms(5) Inr] by simp
  qed
next
  show "(\<forall>i j. i < n_rows x \<and> j < n_cols x \<longrightarrow> (\<exists>v. cell_result P x i j = Inr v))
           \<longrightarrow> (\<exists>y. Transform P x = Inr y)"
    using Transform_total[OF assms(5), of P] by blast
next
  fix lo up i j
  show "cell_result (BoundaryBoxConstraint_scalar lo up) x i j
           = ebind (mat_at x i j) (transform_elem lo up)"
    by (rule cell_result_scalar)
qed

theorem bounds_read_at_lowerBound_clamp_witness:
  "(0::nat) < n_rows (lowerBound (BoundaryBoxConstraint_scalar 0 2))
   \<and> (0::nat) < n_cols (lowerBound (BoundaryBoxConstraint_scalar 0 2))
   \<and> n_rows (lowerBound (BoundaryBoxConstraint_scalar 0 2)) < 2 ^ 64
   \<and> n_cols (lowerBound (BoundaryBoxConstraint_scalar 0 2)) < 2 ^ 64
   \<and> wf_mat (row_mat [1, 3])
   \<and> clamp_index 1 (n_cols (lowerBound (BoundaryBoxConstraint_scalar 0 2))) = 0
   \<and> cell_result (BoundaryBoxConstraint_scalar 0 2) (row_mat [1, 3]) 0 0 = Inr 1
   \<and> cell_result (BoundaryBoxConstraint_scalar 0 2) (row_mat [1, 3]) 0 1 = Inr (13/10)
   \<and> (\<exists>y. Transform (BoundaryBoxConstraint_scalar 0 2) (row_mat [1, 3]) = Inr y
          \<and> n_rows y = 1 \<and> n_cols y = 2
          \<and> mat_at y 0 0 = Inr 1 \<and> mat_at y 0 1 = Inr (13/10))
   \<and> Transform (BoundaryBoxConstraint_scalar 0 2) (row_mat [1, 3]) = Inr (row_mat [1, 13/10])"
proof -
  let ?P = "BoundaryBoxConstraint_scalar 0 2" and ?x = "row_mat [1, 3]"
  have h: "(0::nat) < n_rows (lowerBound ?P)" "(0::nat) < n_cols (lowerBound ?P)"
    "n_rows (lowerBound ?P) < 2 ^ 64" "n_cols (lowerBound ?P) < 2 ^ 64" "wf_mat ?x"
    by (simp_all add: BoundaryBoxConstraint_scalar_def scalar_mat_def row_mat_def wf_mat_def)
  note t = bounds_read_at_lowerBound_clamp[OF h]
  have dims: "n_rows ?x = 1" "n_cols ?x = 2" by (simp_all add: row_mat_def)
  have x: "mat_at ?x 0 0 = Inr 1" "mat_at ?x 0 1 = Inr 3"
    by (simp_all add: row_mat_def mat_at_def)
  from t have sc: "cell_result ?P ?x i j = ebind (mat_at ?x i j) (transform_elem 0 2)" for i j
    by blast
  have c0: "cell_result ?P ?x 0 0 = Inr 1" using x(1) by (simp add: sc ebind_def elem_mid)
  have c1: "cell_result ?P ?x 0 1 = Inr (13/10)" using x(2) by (simp add: sc ebind_def elem_near)
  have cl: "clamp_index 1 (n_cols (lowerBound ?P)) = 0"
  proof -
    from t have "clamp_index 1 (n_cols (lowerBound ?P)) = min 1 (n_cols (lowerBound ?P) - 1)"
      by blast
    then show ?thesis by (simp add: BoundaryBoxConstraint_scalar_def scalar_mat_def)
  qed
  have all: "\<exists>v. cell_result ?P ?x i j = Inr v" if "i < n_rows ?x \<and> j < n_cols ?x" for i j
  proof -
    from that have "i = 0" "j = 0 \<or> j = 1" by (auto simp: dims)
    then show ?thesis using c0 c1 by auto
  qed
  from t all obtain y where y: "Transform ?P ?x = Inr y" by blast
  from t have "case Transform ?P ?x of
           Inr y \<Rightarrow> n_rows y = n_rows ?x \<and> n_cols y = n_cols ?x \<and>
             (\<forall>i j. i < n_rows ?x \<and> j < n_cols ?x \<longrightarrow> mat_at y i j = cell_result ?P ?x i j)
         | Inl e \<Rightarrow> \<exists>i j. i < n_rows ?x \<and> j < n_cols ?x \<and> cell_result ?P ?x i j = Inl e"
    by blast
  with y have yd: "n_rows y = 1" "n_cols y = 2"
    and yc: "\<And>i j. i < n_rows ?x \<and> j < n_cols ?x \<Longrightarrow> mat_at y i j = cell_result ?P ?x i j"
    by (simp_all add: dims)
  have y0: "mat_at y 0 0 = Inr 1" using yc[of 0 0] c0 by (simp add: dims)
  have y1: "mat_at y 0 1 = Inr (13/10)" using yc[of 0 1] c1 by (simp add: dims)
  have ev: "Transform ?P ?x = Inr (row_mat [1, 13/10])"
    by (simp add: Transform_def loop_rows.simps loop_cols.simps Transform_step_def
        BoundaryBoxConstraint_scalar_def scalar_mat_def row_mat_def clamp_index_def mat_at_def
        mat_put_def ebind_def elem_mid elem_near)
  show ?thesis using h cl c0 c1 y yd y0 y1 ev by blast
qed

text \<open>
  The claim as stated speaks of each bound's own last entry. With a \<open>lowerBound\<close> of one
  column and an \<open>upperBound\<close> of two, the third column of the input is transformed with
  the first entry of \<open>upperBound\<close>, 2, and not with its last entry, 104.
\<close>

theorem upperBound_last_entry_not_reused:
  "Transform (BoundaryBoxConstraint_mat (scalar_mat 0) (row_mat [2, 104])) (row_mat [1, 1, 50])
     = Inr (row_mat [1, 1, 3/10])
   \<and> mat_at (upperBound (BoundaryBoxConstraint_mat (scalar_mat 0) (row_mat [2, 104]))) 0 1 = Inr 104
   \<and> mat_at (upperBound (BoundaryBoxConstraint_mat (scalar_mat 0) (row_mat [2, 104]))) 0 0 = Inr 2
   \<and> transform_elem 0 2 50 = Inr (3/10)
   \<and> transform_elem 0 104 50 = Inr 50"
  by (simp add: Transform_def loop_rows.simps loop_cols.simps Transform_step_def
      BoundaryBoxConstraint_mat_def scalar_mat_def row_mat_def clamp_index_def mat_at_def
      mat_put_def ebind_def elem_far elem_mid elem_wide)

text \<open>
  C7. For bound matrices of the same extent with at least one entry,
  \<open>initialStepSize\<close> returns exactly 0.3 times the minimum, over all entries, of
  \<open>upperBound - lowerBound\<close>.
\<close>

theorem initialStepSize_is_scaled_min:
  assumes "wf_mat (lowerBound P)" "wf_mat (upperBound P)"
    and "n_rows (upperBound P) = n_rows (lowerBound P)"
    and "n_cols (upperBound P) = n_cols (lowerBound P)"
    and "0 < n_rows (lowerBound P)" "0 < n_cols (lowerBound P)"
  shows "initialStepSize P =
     Inr (0.3 * Min ((\<lambda>(i, j). value_of (mat_at (upperBound P) i j) - value_of (mat_at (lowerBound P) i j))
                      ` ({..<n_rows (lowerBound P)} \<times> {..<n_cols (lowerBound P)})))"
proof -
  let ?lb = "lowerBound P" and ?ub = "upperBound P"
  let ?nr = "n_rows ?lb" and ?nc = "n_cols ?lb"
  define d where "d = \<lparr>n_rows = ?nr, n_cols = ?nc, mem = map2 (-) (mem ?ub) (mem ?lb)\<rparr>"
  have minus: "arma_minus ?ub ?lb = Inr d"
    using assms(3,4) by (simp add: arma_minus_def d_def)
  have wfd: "wf_mat d" using assms(1-4) by (simp add: wf_mat_def d_def)
  have dims: "n_rows d = ?nr" "n_cols d = ?nc" by (simp_all add: d_def)
  have elem: "mem d ! (i + j * ?nr) = value_of (mat_at ?ub i j) - value_of (mat_at ?lb i j)"
    if "i < ?nr" "j < ?nc" for i j
  proof -
    have "i + j * ?nr < ?nr * ?nc" using that by (rule idx_lt)
    then have "i + j * ?nr < length (mem ?ub)" "i + j * ?nr < length (mem ?lb)"
      using assms(1-4) by (simp_all add: wf_mat_def)
    then have "mem d ! (i + j * ?nr) = mem ?ub ! (i + j * ?nr) - mem ?lb ! (i + j * ?nr)"
      by (simp add: d_def)
    then show ?thesis using that assms(3,4) by (simp add: mat_at_def value_of_def)
  qed
  let ?cm = "\<lambda>j. Min (set (mat_col d j))"
  have cols: "arma_min_cols d = \<lparr>n_rows = 1, n_cols = ?nc, mem = map ?cm [0..<?nc]\<rparr>"
    using assms(5) by (simp add: arma_min_cols_def dims)
  have ne: "map ?cm [0..<?nc] \<noteq> []" using assms(6) by simp
  have vec: "arma_min_vec (arma_min_cols d) = Inr (Min (?cm ` {..<?nc}))"
    using ne by (simp add: arma_min_vec_def cols atLeast0LessThan)
  have cm: "?cm j = Min ((\<lambda>i. mem d ! (i + j * ?nr)) ` {..<?nr})" if "j < ?nc" for j
    using set_mat_col[OF wfd, of j] that by (simp add: dims)
  have "?cm ` {..<?nc} = (\<lambda>j. Min ((\<lambda>i. mem d ! (i + j * ?nr)) ` {..<?nr})) ` {..<?nc}"
    using cm by (intro image_cong) simp_all
  then have "Min (?cm ` {..<?nc}) = Min ((\<lambda>j. Min ((\<lambda>i. mem d ! (i + j * ?nr)) ` {..<?nr})) ` {..<?nc})"
    by (rule arg_cong)
  also have "\<dots> = Min ((\<lambda>(i, j). mem d ! (i + j * ?nr)) ` ({..<?nr} \<times> {..<?nc}))"
    using assms(5,6) by (intro Min_of_Mins) auto
  also have "\<dots> = Min ((\<lambda>(i, j). value_of (mat_at ?ub i j) - value_of (mat_at ?lb i j))
                      ` ({..<?nr} \<times> {..<?nc}))"
  proof -
    have "(\<lambda>(i, j). mem d ! (i + j * ?nr)) ` ({..<?nr} \<times> {..<?nc})
        = (\<lambda>(i, j). value_of (mat_at ?ub i j) - value_of (mat_at ?lb i j)) ` ({..<?nr} \<times> {..<?nc})"
      using elem by (intro image_cong) auto
    then show ?thesis by (rule arg_cong)
  qed
  finally show ?thesis
    by (simp add: initialStepSize_def minus vec ebind_def)
qed

theorem initialStepSize_is_scaled_min_witness:
  "wf_mat (lowerBound (BoundaryBoxConstraint_mat \<lparr>n_rows = 2, n_cols = 2, mem = [1, 1, 2, 0]\<rparr>
                                                 \<lparr>n_rows = 2, n_cols = 2, mem = [5, 3, 4, 1]\<rparr>))
   \<and> wf_mat (upperBound (BoundaryBoxConstraint_mat \<lparr>n_rows = 2, n_cols = 2, mem = [1, 1, 2, 0]\<rparr>
                                                 \<lparr>n_rows = 2, n_cols = 2, mem = [5, 3, 4, 1]\<rparr>))
   \<and> n_rows (upperBound (BoundaryBoxConstraint_mat \<lparr>n_rows = 2, n_cols = 2, mem = [1, 1, 2, 0]\<rparr>
                                                 \<lparr>n_rows = 2, n_cols = 2, mem = [5, 3, 4, 1]\<rparr>))
       = n_rows (lowerBound (BoundaryBoxConstraint_mat \<lparr>n_rows = 2, n_cols = 2, mem = [1, 1, 2, 0]\<rparr>
                                                 \<lparr>n_rows = 2, n_cols = 2, mem = [5, 3, 4, 1]\<rparr>))
   \<and> n_cols (upperBound (BoundaryBoxConstraint_mat \<lparr>n_rows = 2, n_cols = 2, mem = [1, 1, 2, 0]\<rparr>
                                                 \<lparr>n_rows = 2, n_cols = 2, mem = [5, 3, 4, 1]\<rparr>))
       = n_cols (lowerBound (BoundaryBoxConstraint_mat \<lparr>n_rows = 2, n_cols = 2, mem = [1, 1, 2, 0]\<rparr>
                                                 \<lparr>n_rows = 2, n_cols = 2, mem = [5, 3, 4, 1]\<rparr>))
   \<and> 0 < n_rows (lowerBound (BoundaryBoxConstraint_mat \<lparr>n_rows = 2, n_cols = 2, mem = [1, 1, 2, 0]\<rparr>
                                                 \<lparr>n_rows = 2, n_cols = 2, mem = [5, 3, 4, 1]\<rparr>))
   \<and> 0 < n_cols (lowerBound (BoundaryBoxConstraint_mat \<lparr>n_rows = 2, n_cols = 2, mem = [1, 1, 2, 0]\<rparr>
                                                 \<lparr>n_rows = 2, n_cols = 2, mem = [5, 3, 4, 1]\<rparr>))
   \<and> initialStepSize (BoundaryBoxConstraint_mat \<lparr>n_rows = 2, n_cols = 2, mem = [1, 1, 2, 0]\<rparr>
                                                 \<lparr>n_rows = 2, n_cols = 2, mem = [5, 3, 4, 1]\<rparr>)
       = Inr (3/10)"
proof -
  define lb where "lb = \<lparr>n_rows = 2, n_cols = 2, mem = [1, 1, 2, 0 :: real]\<rparr>"
  define ub where "ub = \<lparr>n_rows = 2, n_cols = 2, mem = [5, 3, 4, 1 :: real]\<rparr>"
  let ?P = "BoundaryBoxConstraint_mat lb ub"
  have d: "n_rows (upperBound ?P) = 2" "n_cols (upperBound ?P) = 2"
    "n_rows (lowerBound ?P) = 2" "n_cols (lowerBound ?P) = 2"
    by (simp_all add: BoundaryBoxConstraint_mat_def lb_def ub_def)
  have h: "wf_mat (lowerBound ?P)" "wf_mat (upperBound ?P)"
    "n_rows (upperBound ?P) = n_rows (lowerBound ?P)"
    "n_cols (upperBound ?P) = n_cols (lowerBound ?P)"
    "0 < n_rows (lowerBound ?P)" "0 < n_cols (lowerBound ?P)"
    by (simp_all add: BoundaryBoxConstraint_mat_def lb_def ub_def wf_mat_def)
  have s: "{..<(2::nat)} \<times> {..<(2::nat)} = {(0, 0), (1, 0), (0, 1), (1, 1)}"
    by (auto simp: less_2_cases_iff)
  have e: "value_of (mat_at (upperBound ?P) 0 0) - value_of (mat_at (lowerBound ?P) 0 0) = 4"
    "value_of (mat_at (upperBound ?P) 1 0) - value_of (mat_at (lowerBound ?P) 1 0) = 2"
    "value_of (mat_at (upperBound ?P) 0 1) - value_of (mat_at (lowerBound ?P) 0 1) = 2"
    "value_of (mat_at (upperBound ?P) 1 1) - value_of (mat_at (lowerBound ?P) 1 1) = 1"
    by (simp_all add: BoundaryBoxConstraint_mat_def lb_def ub_def mat_at_def value_of_def)
  have m: "Min ((\<lambda>(i, j). value_of (mat_at (upperBound ?P) i j) - value_of (mat_at (lowerBound ?P) i j))
                ` ({..<n_rows (lowerBound ?P)} \<times> {..<n_cols (lowerBound ?P)})) = 1"
    unfolding d s using e by simp
  have "initialStepSize ?P = Inr (3/10)"
    using initialStepSize_is_scaled_min[OF h] by (simp only: m) simp
  then show ?thesis using h unfolding lb_def ub_def by blast
qed

text \<open>
  The claim as stated (for every instance) fails for the default-constructed policy,
  whose bound matrices have no entry, and for bounds of different extent.
\<close>

theorem initialStepSize_no_minimum:
  "initialStepSize BoundaryBoxConstraint_default = Inl EmptyObject
   \<and> initialStepSize (BoundaryBoxConstraint_mat (scalar_mat 0) (row_mat [1, 2])) = Inl SizeMismatch"
  by (simp add: initialStepSize_def BoundaryBoxConstraint_default_def BoundaryBoxConstraint_mat_def
      empty_mat_def scalar_mat_def row_mat_def arma_minus_def arma_min_cols_def arma_min_vec_def
      ebind_def)

text \<open>
  C8. The identity policy: \<open>Transform\<close> returns every input matrix unchanged, and
  \<open>initialStepSize\<close> returns 1.
\<close>

theorem EmptyTransformation_contract:
  "EmptyTransformation_Transform x = x \<and> EmptyTransformation_initialStepSize = 1"
  by (simp add: EmptyTransformation_Transform_def EmptyTransformation_initialStepSize_def)

text \<open>
  C9. When \<open>lowerBound\<close> is not empty and \<open>upperBound\<close> is at least as large in both
  directions, the indices \<open>Bi, Bj\<close> are inside both bound matrices for every \<open>i, j\<close>
  and \<open>Transform\<close> makes no access out of bounds. The indices are computed from the
  extent of \<open>lowerBound\<close> alone: with a \<open>lowerBound\<close> of two columns and an
  \<open>upperBound\<close> of one, the second column reads \<open>upperBound\<close> out of bounds. For the
  default-constructed policy \<open>lowerBound.n_rows - 1\<close> wraps around to \<open>2^64 - 1\<close> and
  \<open>Transform\<close> of any matrix with an element accesses out of bounds.
\<close>

theorem Transform_accesses_in_bounds:
  assumes "wf_mat x"
    and "0 < n_rows (lowerBound P)" "0 < n_cols (lowerBound P)"
    and "n_rows (lowerBound P) \<le> n_rows (upperBound P)"
    and "n_cols (lowerBound P) \<le> n_cols (upperBound P)"
  shows "(\<forall>i j. clamp_index i (n_rows (lowerBound P)) < n_rows (lowerBound P)
            \<and> clamp_index j (n_cols (lowerBound P)) < n_cols (lowerBound P)
            \<and> clamp_index i (n_rows (lowerBound P)) < n_rows (upperBound P)
            \<and> clamp_index j (n_cols (lowerBound P)) < n_cols (upperBound P))
     \<and> Transform P x \<noteq> Inl OutOfBounds
     \<and> (\<forall>i. clamp_index i (n_rows (lowerBound BoundaryBoxConstraint_default)) = 2 ^ 64 - 1)
     \<and> (0 < n_rows x \<longrightarrow> 0 < n_cols x \<longrightarrow>
          Transform BoundaryBoxConstraint_default x = Inl OutOfBounds)
     \<and> Transform (BoundaryBoxConstraint_mat (row_mat [0, 0]) (scalar_mat 1)) (row_mat [1/2, 1/2])
          = Inl OutOfBounds"
proof (intro conjI allI impI)
  fix i j
  show "clamp_index i (n_rows (lowerBound P)) < n_rows (lowerBound P)"
    "clamp_index j (n_cols (lowerBound P)) < n_cols (lowerBound P)"
    using assms(2,3) by (simp_all add: clamp_index_less)
  then show "clamp_index i (n_rows (lowerBound P)) < n_rows (upperBound P)"
    "clamp_index j (n_cols (lowerBound P)) < n_cols (upperBound P)"
    using assms(4,5) by simp_all
next
  show "Transform P x \<noteq> Inl OutOfBounds"
  proof
    assume "Transform P x = Inl OutOfBounds"
    from Transform_Inl[OF assms(1) this] obtain i j where
      "i < n_rows x" "j < n_cols x" "cell_result P x i j = Inl OutOfBounds" by blast
    then show False using cell_result_not_oob[OF _ _ assms(2-5)] by blast
  qed
next
  fix i
  show "clamp_index i (n_rows (lowerBound BoundaryBoxConstraint_default)) = 2 ^ 64 - 1"
    by (simp add: BoundaryBoxConstraint_default_def empty_mat_def clamp_index_zero)
next
  assume "0 < n_rows x" "0 < n_cols x"
  then show "Transform BoundaryBoxConstraint_default x = Inl OutOfBounds"
    by (rule Transform_default_oob)
next
  have e: "transform_elem 0 1 (1/2) = Inr (1/2)"
    by (rule transform_elem_band) (simp_all add: bbc_params)
  show "Transform (BoundaryBoxConstraint_mat (row_mat [0, 0]) (scalar_mat 1)) (row_mat [1/2, 1/2])
          = Inl OutOfBounds"
    by (simp add: Transform_def loop_rows.simps loop_cols.simps Transform_step_def
        BoundaryBoxConstraint_mat_def scalar_mat_def row_mat_def clamp_index_def mat_at_def
        mat_put_def ebind_def e)
qed

theorem Transform_accesses_in_bounds_witness:
  "wf_mat (row_mat [1, 3])
   \<and> (0::nat) < n_rows (lowerBound (BoundaryBoxConstraint_scalar 0 2))
   \<and> (0::nat) < n_cols (lowerBound (BoundaryBoxConstraint_scalar 0 2))
   \<and> n_rows (lowerBound (BoundaryBoxConstraint_scalar 0 2)) \<le> n_rows (upperBound (BoundaryBoxConstraint_scalar 0 2))
   \<and> n_cols (lowerBound (BoundaryBoxConstraint_scalar 0 2)) \<le> n_cols (upperBound (BoundaryBoxConstraint_scalar 0 2))
   \<and> (0::nat) < n_rows (row_mat [1, 3]) \<and> (0::nat) < n_cols (row_mat [1, 3])
   \<and> Transform (BoundaryBoxConstraint_scalar 0 2) (row_mat [1, 3]) \<noteq> Inl OutOfBounds
   \<and> Transform BoundaryBoxConstraint_default (row_mat [1, 3]) = Inl OutOfBounds"
proof -
  let ?P = "BoundaryBoxConstraint_scalar 0 2" and ?x = "row_mat [1, 3]"
  have h: "wf_mat ?x" "(0::nat) < n_rows (lowerBound ?P)" "(0::nat) < n_cols (lowerBound ?P)"
    "n_rows (lowerBound ?P) \<le> n_rows (upperBound ?P)"
    "n_cols (lowerBound ?P) \<le> n_cols (upperBound ?P)"
    by (simp_all add: BoundaryBoxConstraint_scalar_def scalar_mat_def row_mat_def wf_mat_def)
  have d: "(0::nat) < n_rows ?x" "(0::nat) < n_cols ?x" by (simp_all add: row_mat_def)
  from Transform_accesses_in_bounds[OF h] h d show ?thesis by blast
qed

end
